theory Spec2Isabelle
  imports Main "HOL-Library.Sublist"
begin

section \<open>Event loop: reconnect with backoff (monitor.ts, monitorZulipProvider)\<close>

text \<open>
  The long-polling loop of \<^verbatim>\<open>monitorZulipProvider\<close>:
  \<^verbatim>\<open>
  let backoffMs = 1000;
  const MAX_BACKOFF_MS = 30000;
  while (!opts.abortSignal?.aborted) {
    try {
      const queue = await registerZulipEventQueue(client);
      ...
      backoffMs = 1000;
      while (!opts.abortSignal?.aborted) { ... pollZulipEvents ... }
    } catch (err) {
      if (opts.abortSignal?.aborted) return;
      ...
      await new Promise((r) => setTimeout(r, backoffMs));
      backoffMs = Math.min(backoffMs * 2, MAX_BACKOFF_MS);
    }
  }
  \<close>
  The loop runs until it is aborted, so the model is driven by the list of what the
  transport did in each pass of the outer loop. The state is the variable
  \<open>backoffMs\<close> together with the list of the delays slept so far (the arguments
  of \<open>setTimeout\<close>, in milliseconds, oldest first).
\<close>

definition MAX_BACKOFF_MS :: nat where
  "MAX_BACKOFF_MS = 30000"

record loop_state =
  backoffMs :: nat
  slept :: "nat list"

text \<open>One pass of the outer loop, as the transport decides it.\<close>

datatype pass =
    RegisterFails            \<comment> \<open>\<open>registerZulipEventQueue\<close> throws\<close>
  | PollFails nat            \<comment> \<open>registration succeeds, that many polls succeed, the next one throws\<close>
  | Aborted                  \<comment> \<open>the abort signal is set when the catch block is entered\<close>

definition loop_init :: loop_state where
  "loop_init = \<lparr>backoffMs = 1000, slept = []\<rparr>"

text \<open>The statement \<open>backoffMs = 1000\<close> that follows a successful registration.\<close>

definition registered :: "loop_state \<Rightarrow> loop_state" where
  "registered s = s\<lparr>backoffMs := 1000\<rparr>"

text \<open>The catch block when the loop is not aborted: sleep, then double up to the ceiling.\<close>

definition backoff :: "loop_state \<Rightarrow> loop_state" where
  "backoff s =
     s\<lparr>slept := slept s @ [backoffMs s],
       backoffMs := min (backoffMs s * 2) MAX_BACKOFF_MS\<rparr>"

text \<open>
  The outer loop over the passes. \<open>Aborted\<close> is the \<open>return\<close> of the catch
  block: nothing is slept and the loop ends.
\<close>

fun monitorLoop :: "pass list \<Rightarrow> loop_state \<Rightarrow> loop_state" where
  "monitorLoop [] s = s"
| "monitorLoop (RegisterFails # ps) s = monitorLoop ps (backoff s)"
| "monitorLoop (PollFails n # ps) s = monitorLoop ps (backoff (registered s))"
| "monitorLoop (Aborted # ps) s = s"

text \<open>The delay of the \<open>i\<close>-th failure in a row (counting from 0), in milliseconds.\<close>

definition delay :: "nat \<Rightarrow> nat" where
  "delay i = (if i < 5 then 1000 * 2 ^ i else 30000)"


section \<open>Dedup cache (monitor.ts, dedupeCheck)\<close>

text \<open>
  \<^verbatim>\<open>
  const RECENT_MESSAGE_TTL_MS = 5 * 60_000;
  const RECENT_MAX = 2000;
  const recentIds = new Map<string, number>();

  function dedupeCheck(key: string): boolean {
    const now = Date.now();
    if (recentIds.size > RECENT_MAX) {
      for (const [k, t] of recentIds) {
        if (now - t > RECENT_MESSAGE_TTL_MS) recentIds.delete(k);
      }
    }
    if (recentIds.has(key)) return true;
    recentIds.set(key, now);
    return false;
  }
  \<close>
  The module-level \<open>Map\<close> is the list of its entries in insertion order; the function
  takes it and returns it updated, and takes the value of \<open>Date.now()\<close> (milliseconds,
  an integer that nothing forces to grow from one call to the next). \<open>set\<close> is only
  reached for a key the map does not hold, so it adds the entry at the end and the keys
  of the list stay distinct: its length is the \<open>size\<close> of the map.
\<close>

definition RECENT_MESSAGE_TTL_MS :: int where
  "RECENT_MESSAGE_TTL_MS = 5 * 60000"

definition RECENT_MAX :: nat where
  "RECENT_MAX = 2000"

type_synonym recent = "(string \<times> int) list"

definition has :: "recent \<Rightarrow> string \<Rightarrow> bool" where
  "has r key = (key \<in> set (map fst r))"

text \<open>The cleanup at the head of \<open>dedupeCheck\<close>.\<close>

definition cleanup :: "int \<Rightarrow> recent \<Rightarrow> recent" where
  "cleanup now r =
     (if length r > RECENT_MAX
      then filter (\<lambda>(k, t). \<not> now - t > RECENT_MESSAGE_TTL_MS) r
      else r)"

definition dedupeCheck :: "string \<Rightarrow> int \<Rightarrow> recent \<Rightarrow> bool \<times> recent" where
  "dedupeCheck key now r =
     (let r' = cleanup now r
      in if has r' key then (True, r') else (False, r' @ [(key, now)]))"

text \<open>A run of checks, each with its key and its clock value; the answers are dropped.\<close>

fun dedupeChecks :: "(string \<times> int) list \<Rightarrow> recent \<Rightarrow> recent" where
  "dedupeChecks [] r = r"
| "dedupeChecks ((key, now) # cs) r = dedupeChecks cs (snd (dedupeCheck key now r))"

text \<open>
  \<open>String(n)\<close> for a number that is an integer below \<open>10^21\<close> in absolute value, as
  the identifiers of messages and users are: the decimal digits, after a minus sign for
  a negative number.
\<close>

definition digit :: "nat \<Rightarrow> char" where
  "digit d = char_of (48 + d)"

fun decimal :: "nat \<Rightarrow> string" where
  "decimal n = (if n < 10 then [digit n] else decimal (n div 10) @ [digit (n mod 10)])"

declare decimal.simps [simp del]

definition String_of :: "int \<Rightarrow> string" where
  "String_of i = (if i < 0 then CHR ''-'' # decimal (nat (- i)) else decimal (nat i))"

text \<open>The key of \<open>handleMessage\<close>: \<^verbatim>\<open>`${account.accountId}:${msg.id}`\<close>.\<close>

definition dedupeKey :: "string \<Rightarrow> int \<Rightarrow> string" where
  "dedupeKey accountId msgId = accountId @ '':'' @ String_of msgId"


section \<open>Strings\<close>

text \<open>
  A string of the program is a list of code units, here \<^typ>\<open>char\<close>: the model covers
  the strings whose code units are below 256 (ASCII and Latin-1). In that range the white
  space of \<open>trim\<close> and of the regular expression class \<open>\s\<close> is tab, line feed,
  vertical tab, form feed, carriage return, space and the no-break space; and
  \<open>toLowerCase\<close> moves \<open>A\<close> to \<open>Z\<close> and the capital letters \<open>0xC0\<close> to
  \<open>0xDE\<close> (but the multiplication sign \<open>0xD7\<close>) up by 32. Two code units of that
  range are equal for a regular expression with flag \<open>i\<close> exactly when \<open>toLowerCase\<close>
  makes them equal.
\<close>

definition isSpace :: "char \<Rightarrow> bool" where
  "isSpace c = (of_char c \<in> {9, 10, 11, 12, 13, 32, 160 :: nat})"

definition trim :: "string \<Rightarrow> string" where
  "trim s = rev (dropWhile isSpace (rev (dropWhile isSpace s)))"

definition lowerChar :: "char \<Rightarrow> char" where
  "lowerChar c =
     (let n = of_char c :: nat
      in if (65 \<le> n \<and> n \<le> 90) \<or> (192 \<le> n \<and> n \<le> 222 \<and> n \<noteq> 215)
         then char_of (n + 32) else c)"

definition toLowerCase :: "string \<Rightarrow> string" where
  "toLowerCase s = map lowerChar s"

text \<open>\<open>s.startsWith(p)\<close>, and the same up to case.\<close>

definition startsWith :: "string \<Rightarrow> string \<Rightarrow> bool" where
  "startsWith s p = (take (length p) s = p)"

definition startsWithCI :: "string \<Rightarrow> string \<Rightarrow> bool" where
  "startsWithCI s p = (toLowerCase (take (length p) s) = toLowerCase p)"

text \<open>
  \<open>text.replace(re, rep)\<close> for a regular expression with flags \<open>gi\<close> that matches the
  text \<open>pat\<close> literally (\<open>pat\<close> is not empty): every match, from the left, without overlap.
\<close>

fun replaceAllCI :: "string \<Rightarrow> string \<Rightarrow> string \<Rightarrow> string" where
  "replaceAllCI pat rep [] = []"
| "replaceAllCI pat rep (c # cs) =
     (if pat \<noteq> [] \<and> startsWithCI (c # cs) pat
      then rep @ replaceAllCI pat rep (drop (length pat - 1) cs)
      else c # replaceAllCI pat rep cs)"

text \<open>\<open>re.test(text)\<close> for such an expression with flag \<open>i\<close>.\<close>

fun testCI :: "string \<Rightarrow> string \<Rightarrow> bool" where
  "testCI pat [] = False"
| "testCI pat (c # cs) = ((pat \<noteq> [] \<and> startsWithCI (c # cs) pat) \<or> testCI pat cs)"

text \<open>\<^verbatim>\<open>.replace(/\s+/g, " ")\<close>: every run of white space becomes one space.\<close>

function collapseSpaces :: "string \<Rightarrow> string" where
  "collapseSpaces [] = []"
| "collapseSpaces (c # cs) =
     (if isSpace c then CHR '' '' # collapseSpaces (dropWhile isSpace cs)
      else c # collapseSpaces cs)"
  by pat_completeness auto
termination
  by (relation "measure length") (auto simp: length_dropWhile_le less_Suc_eq_le)


section \<open>Allow-list (monitor.ts, normalizeAllowEntry, normalizeAllowList, isSenderAllowed)\<close>

text \<open>
  \<^verbatim>\<open>
  function normalizeAllowEntry(entry: string): string {
    return entry.trim().replace(/^(zulip|user):/i, "").toLowerCase();
  }
  \<close>
\<close>

definition stripAllowPrefix :: "string \<Rightarrow> string" where
  "stripAllowPrefix s =
     (if startsWithCI s ''zulip:'' then drop 6 s
      else if startsWithCI s ''user:'' then drop 5 s
      else s)"

definition normalizeAllowEntry :: "string \<Rightarrow> string" where
  "normalizeAllowEntry entry = toLowerCase (stripAllowPrefix (trim entry))"

text \<open>
  An entry of a configured or stored list is a string or a number
  (\<open>Array<string | number>\<close>); \<open>String(e)\<close> leaves a string as it is.
\<close>

datatype allow_entry = Str string | Num int

fun String_entry :: "allow_entry \<Rightarrow> string" where
  "String_entry (Str s) = s"
| "String_entry (Num n) = String_of n"

text \<open>\<open>Array.from(new Set(xs))\<close>: the first occurrence of each element, in order.\<close>

definition uniq :: "'a list \<Rightarrow> 'a list" where
  "uniq xs = rev (remdups (rev xs))"

text \<open>
  \<^verbatim>\<open>
  function normalizeAllowList(entries: Array<string | number>): string[] {
    return Array.from(new Set(entries.map((e) => normalizeAllowEntry(String(e))).filter(Boolean)));
  }
  \<close>
\<close>

definition normalizeAllowList :: "allow_entry list \<Rightarrow> string list" where
  "normalizeAllowList entries =
     uniq (filter (\<lambda>s. s \<noteq> []) (map (\<lambda>e. normalizeAllowEntry (String_entry e)) entries))"

text \<open>
  \<^verbatim>\<open>
  function isSenderAllowed(params: { senderId: string; senderEmail?: string;
                                     senderName?: string; allowFrom: string[] }): boolean {
    if (params.allowFrom.length === 0) return false;
    if (params.allowFrom.includes("*")) return true;
    const idNorm = normalizeAllowEntry(params.senderId);
    const emailNorm = params.senderEmail ? normalizeAllowEntry(params.senderEmail) : "";
    const nameNorm = params.senderName ? normalizeAllowEntry(params.senderName) : "";
    return params.allowFrom.some((e) => e === idNorm || (emailNorm && e === emailNorm)
                                        || (nameNorm && e === nameNorm));
  }
  \<close>
  The message type declares the address and the name of the sender as strings, so an
  absent one is the empty string here.
\<close>

definition isSenderAllowed :: "string \<Rightarrow> string \<Rightarrow> string \<Rightarrow> string list \<Rightarrow> bool" where
  "isSenderAllowed senderId senderEmail senderName allowFrom =
     (if length allowFrom = 0 then False
      else if ''*'' \<in> set allowFrom then True
      else
        let idNorm = normalizeAllowEntry senderId;
            emailNorm = (if senderEmail \<noteq> [] then normalizeAllowEntry senderEmail else []);
            nameNorm = (if senderName \<noteq> [] then normalizeAllowEntry senderName else [])
        in list_ex (\<lambda>e. e = idNorm \<or> (emailNorm \<noteq> [] \<and> e = emailNorm)
                         \<or> (nameNorm \<noteq> [] \<and> e = nameNorm)) allowFrom)"


section \<open>Mentions (monitor.ts, stripMention, wasBotMentioned)\<close>

text \<open>
  \<^verbatim>\<open>
  function stripMention(text: string, botName?: string): string {
    if (!botName) return text.trim();
    const escaped = botName.replace(/[.*+?^${}()|[\]\\]/g, "\\$&");
    const re = new RegExp(`@\\*\\*${escaped}\\*\\*`, "gi");
    return text.replace(re, " ").replace(/\s+/g, " ").trim();
  }

  function wasBotMentioned(text: string, botName?: string): boolean {
    if (!botName) return false;
    const escaped = botName.replace(/[.*+?^${}()|[\]\\]/g, "\\$&");
    const re = new RegExp(`@\\*\\*${escaped}\\*\\*`, "i");
    return re.test(text);
  }
  \<close>
  The name is escaped, so the expression matches the text \<open>@**name**\<close> literally, up
  to case.
\<close>

definition mentionOf :: "string \<Rightarrow> string" where
  "mentionOf botName = ''@**'' @ botName @ ''**''"

definition stripMention :: "string \<Rightarrow> string \<Rightarrow> string" where
  "stripMention text botName =
     (if botName = [] then trim text
      else trim (collapseSpaces (replaceAllCI (mentionOf botName) '' '' text)))"

definition wasBotMentioned :: "string \<Rightarrow> string \<Rightarrow> bool" where
  "wasBotMentioned text botName =
     (if botName = [] then False else testCI (mentionOf botName) text)"


section \<open>Sending (send.ts, parseZulipTarget, sendZulipMessage)\<close>

text \<open>Every \<open>throw\<close> on the path of a send is a value of this type.\<close>

datatype send_error =
    CredentialsMissing       \<comment> \<open>\<open>Zulip credentials missing for account ...\<close>\<close>
  | ServerUrlRequired        \<comment> \<open>\<open>createZulipClient\<close>: \<open>Zulip serverUrl is required\<close>\<close>
  | BotEmailApiKeyRequired   \<comment> \<open>\<open>createZulipClient\<close>: \<open>Zulip botEmail and apiKey are required\<close>\<close>
  | TargetRequired           \<comment> \<open>\<open>Zulip target is required\<close>\<close>
  | MessageEmpty             \<comment> \<open>\<open>Zulip message is empty\<close>\<close>
  | ApiError                 \<comment> \<open>the request to \<open>/messages\<close> fails\<close>

datatype target_type = TStream | TDirect

record target =
  ttype :: target_type
  tto :: string
  ttopic :: "string option"

text \<open>\<open>s.indexOf(":")\<close>, with \<open>None\<close> for \<open>-1\<close>.\<close>

fun indexOfColon :: "string \<Rightarrow> nat option" where
  "indexOfColon [] = None"
| "indexOfColon (c # cs) =
     (if c = CHR '':'' then Some 0 else map_option Suc (indexOfColon cs))"

text \<open>
  \<^verbatim>\<open>
  function parseZulipTarget(raw: string) {
    const trimmed = raw.trim();
    if (!trimmed) throw new Error("Zulip target is required");
    if (trimmed.toLowerCase().startsWith("stream:")) {
      const rest = trimmed.slice("stream:".length);
      const colonIdx = rest.indexOf(":");
      if (colonIdx < 0) {
        return { type: "stream", to: rest, topic: "(no topic)" };
      }
      return { type: "stream", to: rest.slice(0, colonIdx),
               topic: rest.slice(colonIdx + 1) || "(no topic)" };
    }
    if (trimmed.toLowerCase().startsWith("dm:") || trimmed.toLowerCase().startsWith("user:")) {
      const prefix = trimmed.includes(":") ? trimmed.slice(0, trimmed.indexOf(":") + 1) : "";
      const id = trimmed.slice(prefix.length).trim();
      return { type: "direct", to: JSON.stringify([Number(id) || id]) };
    }
    return { type: "stream", to: trimmed, topic: "(no topic)" };
  }
  \<close>
  For a direct target, \<open>tto\<close> holds \<open>id\<close>, the text after the prefix: the JSON text of
  the one-element array built from it is not computed here.
\<close>

definition parseZulipTarget :: "string \<Rightarrow> send_error + target" where
  "parseZulipTarget raw =
     (let trimmed = trim raw in
      if trimmed = [] then Inl TargetRequired
      else if startsWith (toLowerCase trimmed) ''stream:'' then
        (let rest = drop (length ''stream:'') trimmed in
         case indexOfColon rest of
           None \<Rightarrow> Inr \<lparr>ttype = TStream, tto = rest, ttopic = Some ''(no topic)''\<rparr>
         | Some colonIdx \<Rightarrow>
             Inr \<lparr>ttype = TStream, tto = take colonIdx rest,
                  ttopic = Some (if drop (colonIdx + 1) rest \<noteq> []
                                 then drop (colonIdx + 1) rest else ''(no topic)'')\<rparr>)
      else if startsWith (toLowerCase trimmed) ''dm:'' \<or> startsWith (toLowerCase trimmed) ''user:'' then
        (let prefix = (case indexOfColon trimmed of
                         Some i \<Rightarrow> take (i + 1) trimmed | None \<Rightarrow> []);
             ident = trim (drop (length prefix) trimmed)
         in Inr \<lparr>ttype = TDirect, tto = ident, ttopic = None\<rparr>)
      else Inr \<lparr>ttype = TStream, tto = trimmed, ttopic = Some ''(no topic)''\<rparr>)"

text \<open>
  The account as \<open>sendZulipMessage\<close> resolves it from the configuration it loads, and
  the options of a send.
\<close>

record account =
  accountId :: string
  serverUrl :: "string option"
  botEmail :: "string option"
  apiKey :: "string option"

record send_opts =
  mediaUrl :: "string option"

record media =
  fileName :: "string option"
  contentType :: "string option"

text \<open>A value that is \<open>undefined\<close> or the empty string: \<open>!v\<close>.\<close>

definition missing :: "string option \<Rightarrow> bool" where
  "missing v = (case v of None \<Rightarrow> True | Some s \<Rightarrow> s = [])"

text \<open>
  \<open>createZulipClient\<close> (client.ts), as far as it can throw:
  \<^verbatim>\<open>
  const serverUrl = normalizeServerUrl(params.serverUrl);   // trim, then drop trailing "/"
  if (!serverUrl) throw new Error("Zulip serverUrl is required");
  const botEmail = params.botEmail.trim();
  const apiKey = params.apiKey.trim();
  if (!botEmail || !apiKey) throw new Error("Zulip botEmail and apiKey are required");
  \<close>
\<close>

definition normalizeServerUrl :: "string \<Rightarrow> string option" where
  "normalizeServerUrl raw =
     (let trimmed = trim raw in
      if trimmed = [] then None
      else Some (rev (dropWhile (\<lambda>c. c = CHR ''/'') (rev trimmed))))"

definition createZulipClient :: "string \<Rightarrow> string \<Rightarrow> string \<Rightarrow> send_error + unit" where
  "createZulipClient url email key =
     (if missing (normalizeServerUrl url) then Inl ServerUrlRequired
      else if trim email = [] \<or> trim key = [] then Inl BotEmailApiKeyRequired
      else Inr ())"

text \<open>
  What reaches the transport: a file upload (\<open>uploadZulipFile\<close>, with the file name) or a
  message (\<open>sendZulipApiMessage\<close>, with target and content). The transport itself, the
  loader of media and the configuration loader are collaborators: the model takes what
  they answer.
\<close>

datatype request =
    Upload string
  | Message target string

record send_env =
  loadedAccount :: account                                \<comment> \<open>\<open>resolveZulipAccount\<close> on \<open>loadConfig()\<close>\<close>
  loadWebMedia :: "string \<Rightarrow> media option"             \<comment> \<open>\<open>None\<close>: it throws\<close>
  uploadZulipFile :: "string \<Rightarrow> string option"         \<comment> \<open>the \<open>uri\<close>, \<open>None\<close>: it throws\<close>
  sendZulipApiMessage :: "target \<Rightarrow> string \<Rightarrow> int option"  \<comment> \<open>the \<open>id\<close>, \<open>None\<close>: it throws\<close>

text \<open>\<^verbatim>\<open>/^https?:\/\//i.test(mediaUrl)\<close>\<close>

definition isHttpUrl :: "string \<Rightarrow> bool" where
  "isHttpUrl u = (startsWithCI u ''http://'' \<or> startsWithCI u ''https://'')"

text \<open>\<^verbatim>\<open>content ? `${content}\n${extra}` : extra\<close>\<close>

definition appendLine :: "string \<Rightarrow> string \<Rightarrow> string" where
  "appendLine content extra = (if content \<noteq> [] then content @ [CHR 0x0A] @ extra else extra)"

text \<open>
  The media block of \<open>sendZulipMessage\<close>:
  \<^verbatim>\<open>
  const mediaUrl = opts.mediaUrl?.trim();
  if (mediaUrl) {
    try {
      const media = await core.media.loadWebMedia(mediaUrl);
      const uploaded = await uploadZulipFile(client, media.buffer,
        media.fileName ?? "upload", media.contentType ?? undefined);
      const mediaLink = `[${media.fileName ?? "file"}](${uploaded.uri})`;
      content = content ? `${content}\n${mediaLink}` : mediaLink;
    } catch {
      // Fallback: include URL as text if upload fails
      if (/^https?:\/\//i.test(mediaUrl)) {
        content = content ? `${content}\n${mediaUrl}` : mediaUrl;
      }
    }
  }
  \<close>
  It returns the content and the requests made.
\<close>

definition fallbackContent :: "string \<Rightarrow> string \<Rightarrow> string" where
  "fallbackContent content url = (if isHttpUrl url then appendLine content url else content)"

definition attachMedia ::
  "send_env \<Rightarrow> send_opts \<Rightarrow> string \<Rightarrow> request list \<Rightarrow> string \<times> request list" where
  "attachMedia e opts content log =
     (case map_option trim (mediaUrl opts) of
        None \<Rightarrow> (content, log)
      | Some url \<Rightarrow>
          if url = [] then (content, log)
          else
            (case loadWebMedia e url of
               None \<Rightarrow> (fallbackContent content url, log)
             | Some m \<Rightarrow>
                 (let name = (case fileName m of None \<Rightarrow> ''upload'' | Some n \<Rightarrow> n);
                      log' = log @ [Upload name]
                  in case uploadZulipFile e name of
                       None \<Rightarrow> (fallbackContent content url, log')
                     | Some uri \<Rightarrow>
                         (appendLine content
                            (''['' @ (case fileName m of None \<Rightarrow> ''file'' | Some n \<Rightarrow> n)
                               @ '']('' @ uri @ '')''),
                          log'))))"

text \<open>
  \<^verbatim>\<open>
  export async function sendZulipMessage(to, text, opts = {}) {
    const core = getZulipRuntime();
    const cfg = core.config.loadConfig();
    const account = resolveZulipAccount({ cfg, accountId: opts.accountId });
    const serverUrl = account.serverUrl;
    const botEmail = account.botEmail;
    const apiKey = account.apiKey;
    if (!serverUrl || !botEmail || !apiKey) { throw new Error(`Zulip credentials missing ...`); }
    const client = createZulipClient({ serverUrl, botEmail, apiKey });
    const target = parseZulipTarget(to);
    let content = text?.trim() ?? "";
    ... the media block ...
    if (!content) throw new Error("Zulip message is empty");
    const result = await sendZulipApiMessage(client,
      { type: target.type, to: target.to, topic: target.topic, content });
    core.channel.activity.record({ channel: "zulip", accountId: account.accountId,
                                   direction: "outbound" });
    return { messageId: String(result.id) };
  }
  \<close>
  The function takes the list of the requests made to the transport so far and returns
  it with its own added, next to the error or the message id.
\<close>

definition sendZulipMessage ::
  "send_env \<Rightarrow> string \<Rightarrow> string \<Rightarrow> send_opts \<Rightarrow> request list
     \<Rightarrow> (send_error + string) \<times> request list" where
  "sendZulipMessage e to text opts log =
     (let acc = loadedAccount e in
      if missing (serverUrl acc) \<or> missing (botEmail acc) \<or> missing (apiKey acc)
      then (Inl CredentialsMissing, log)
      else
        case createZulipClient (the (serverUrl acc)) (the (botEmail acc)) (the (apiKey acc)) of
          Inl err \<Rightarrow> (Inl err, log)
        | Inr client \<Rightarrow>
            (case parseZulipTarget to of
               Inl err \<Rightarrow> (Inl err, log)
             | Inr tgt \<Rightarrow>
                 (let (content, log1) = attachMedia e opts (trim text) log in
                  if content = [] then (Inl MessageEmpty, log1)
                  else
                    (let log2 = log1 @ [Message tgt content] in
                     case sendZulipApiMessage e tgt content of
                       None \<Rightarrow> (Inl ApiError, log2)
                     | Some msgId \<Rightarrow> (Inr (String_of msgId), log2)))))"


section \<open>Handling one inbound message (monitor.ts, handleMessage)\<close>

text \<open>The message as client.ts declares it (\<open>ZulipMessage\<close>).\<close>

datatype msg_type = Stream | Private

datatype recipient =
    RecipientName string
  | RecipientUsers "(int \<times> string \<times> string) list"

record ZulipMessage =
  msg_id :: int
  sender_id :: int
  sender_email :: string
  sender_full_name :: string
  msg_type :: msg_type
  stream_id :: "int option"
  display_recipient :: recipient
  subject :: "string option"
  content :: string
  timestamp :: int

record stream_info =
  streamName :: string
  topic :: string

text \<open>
  \<^verbatim>\<open>
  function resolveStreamInfo(msg: ZulipMessage) {
    if (msg.type !== "stream") return null;
    const streamName = typeof msg.display_recipient === "string" ? msg.display_recipient : "";
    return { streamName, topic: msg.subject ?? "(no topic)" };
  }
  \<close>
\<close>

definition resolveStreamInfo :: "ZulipMessage \<Rightarrow> stream_info option" where
  "resolveStreamInfo msg =
     (if msg_type msg \<noteq> Stream then None
      else Some \<lparr>streamName = (case display_recipient msg of
                                  RecipientName n \<Rightarrow> n | RecipientUsers us \<Rightarrow> []),
                 topic = (case subject msg of None \<Rightarrow> ''(no topic)'' | Some t \<Rightarrow> t)\<rparr>)"

text \<open>
  What \<open>monitorZulipProvider\<close> fixes before the loop starts: the account, the profile of
  the bot, and
  \<^verbatim>\<open>
  const dmPolicy = account.config.dmPolicy ?? "pairing";
  const configAllowFrom = normalizeAllowList(account.config.allowFrom ?? []);
  const autoReplyStreams: string[] = (account.config as any).autoReplyStreams ?? [];
  \<close>
\<close>

datatype dm_policy = PolicyOpen | PolicyPairing | PolicyDisabled

record monitor_config =
  cfg_accountId :: string
  cfg_dmPolicy :: "dm_policy option"
  cfg_allowFrom :: "allow_entry list option"
  cfg_autoReplyStreams :: "string list option"
  botUserId :: int
  botName :: string

definition dmPolicy :: "monitor_config \<Rightarrow> dm_policy" where
  "dmPolicy cfg = (case cfg_dmPolicy cfg of None \<Rightarrow> PolicyPairing | Some p \<Rightarrow> p)"

definition configAllowFrom :: "monitor_config \<Rightarrow> string list" where
  "configAllowFrom cfg =
     normalizeAllowList (case cfg_allowFrom cfg of None \<Rightarrow> [] | Some es \<Rightarrow> es)"

definition autoReplyStreams :: "monitor_config \<Rightarrow> string list" where
  "autoReplyStreams cfg = (case cfg_autoReplyStreams cfg of None \<Rightarrow> [] | Some ss \<Rightarrow> ss)"

text \<open>
  The state a message is handled in: the dedup cache, what
  \<open>readAllowFromStore("zulip")\<close> answers (the empty list when it fails, by its
  \<open>catch\<close>), the pending pairing requests of the pairing store, and the requests made to
  the transport. One call of \<open>handleMessage\<close> reads the allow-list store up to twice;
  nothing else writes the store in this sequential model, so both reads see the same list.
\<close>

record world =
  recentIds :: recent
  allowFromStore :: "allow_entry list"
  pairingRequests :: "(string \<times> string) list"
  transport :: "request list"

text \<open>What the collaborators answer while one message is handled.\<close>

record env =
  clock :: int                                          \<comment> \<open>\<open>Date.now()\<close> in \<open>dedupeCheck\<close>\<close>
  matchesMentionPatterns :: "string \<Rightarrow> bool"           \<comment> \<open>on the patterns of \<open>buildMentionRegexes(cfg)\<close>\<close>
  buildPairingReply :: "string \<Rightarrow> string \<Rightarrow> string"   \<comment> \<open>from \<open>idLine\<close> and \<open>code\<close>\<close>
  freshCode :: string                                   \<comment> \<open>the code the pairing store gives a new request\<close>
  sending :: send_env

text \<open>
  \<^verbatim>\<open>
  const getEffectiveAllowFrom = async (): Promise<string[]> => {
    const storeAllowFrom = normalizeAllowList(
      await core.channel.pairing.readAllowFromStore("zulip").catch(() => []),
    );
    return Array.from(new Set([...configAllowFrom, ...storeAllowFrom]));
  };
  \<close>
\<close>

definition getEffectiveAllowFrom :: "monitor_config \<Rightarrow> world \<Rightarrow> string list" where
  "getEffectiveAllowFrom cfg w =
     uniq (configAllowFrom cfg @ normalizeAllowList (allowFromStore w))"

text \<open>
  Modelled from the spec: \<open>upsertPairingRequest\<close>, a function of the host's pairing
  store, which is not part of this repository's sources. The spec has it "idempotently
  register a pairing request for the sender (keyed by sender id; repeated requests before
  approval must not create duplicate pending entries)" and report whether the request was
  created by this call. The pending requests are a list of sender id and code; a new
  request takes the code the store generates, an old one keeps its code.
\<close>

definition upsertPairingRequest ::
  "string \<Rightarrow> string \<Rightarrow> (string \<times> string) list \<Rightarrow> (string \<times> bool) \<times> (string \<times> string) list" where
  "upsertPairingRequest senderId newCode reqs =
     (case map_of reqs senderId of
        Some code \<Rightarrow> ((code, False), reqs)
      | None \<Rightarrow> ((newCode, True), reqs @ [(senderId, newCode)]))"

datatype chat_type = Direct | Channel

text \<open>
  The argument of \<open>finalizeInboundContext\<close>, but the fields that come from the
  collaborators (\<open>Body\<close> from \<open>formatInboundEnvelope\<close>, \<open>SessionKey\<close> and
  \<open>AccountId\<close> from the route) and the constant ones.
\<close>

record inbound_ctx =
  BodyForAgent :: string
  RawBody :: string
  CommandBody :: string
  From :: string
  To :: string
  ChatType :: chat_type
  ConversationLabel :: string
  GroupSubject :: "string option"
  SenderName :: string
  SenderId :: string
  MessageSid :: string
  Timestamp :: int
  WasMentioned :: "bool option"
  CommandAuthorized :: bool

text \<open>
  How \<open>handleMessage\<close> ends: at one of its \<open>return\<close> statements, or with the context
  it hands to reply generation.
\<close>

datatype outcome =
    OwnMessage               \<comment> \<open>\<open>if (msg.sender_id === botUserId) return;\<close>\<close>
  | Duplicate                \<comment> \<open>\<open>if (dedupeCheck(dedupeKey)) return;\<close>\<close>
  | NotMentioned             \<comment> \<open>\<open>if (!mentioned && !patternMatch) return;\<close>\<close>
  | StreamSenderDenied       \<comment> \<open>the \<open>return\<close> of the auto-reply branch\<close>
  | DmDisabled               \<comment> \<open>\<open>if (dmPolicy === "disabled") return;\<close>\<close>
  | DmDenied                 \<comment> \<open>the \<open>return\<close> after the pairing block\<close>
  | EmptyBody                \<comment> \<open>\<open>if (!bodyText) return;\<close>\<close>
  | Dispatch inbound_ctx


text \<open>
  The gate of a message that is not direct:
  \<^verbatim>\<open>
  if (!isDm) {
    const inAutoReplyStream = streamInfo && autoReplyStreams.some(
      (s) => s.toLowerCase() === streamInfo.streamName.toLowerCase()
    );
    if (!inAutoReplyStream) {
      const mentioned = wasBotMentioned(rawText, botName);
      const mentionRegexes = core.channel.mentions.buildMentionRegexes(cfg);
      const patternMatch = core.channel.mentions.matchesMentionPatterns(rawText, mentionRegexes);
      if (!mentioned && !patternMatch) return;
    }
    if (inAutoReplyStream) {
      const streamAllowFrom = await getEffectiveAllowFrom();
      if (streamAllowFrom.length > 0 && !isSenderAllowed({
        senderId, senderEmail, senderName, allowFrom: streamAllowFrom,
      })) return;
    }
  }
  \<close>
\<close>

definition inAutoReplyStream :: "monitor_config \<Rightarrow> ZulipMessage \<Rightarrow> bool" where
  "inAutoReplyStream cfg msg =
     (case resolveStreamInfo msg of
        None \<Rightarrow> False
      | Some si \<Rightarrow>
          list_ex (\<lambda>s. toLowerCase s = toLowerCase (streamName si)) (autoReplyStreams cfg))"

definition streamGate :: "env \<Rightarrow> monitor_config \<Rightarrow> ZulipMessage \<Rightarrow> world \<Rightarrow> outcome option" where
  "streamGate e cfg msg w =
     (let rawText = trim (content msg);
          mentioned = wasBotMentioned rawText (botName cfg);
          patternMatch = matchesMentionPatterns e rawText;
          streamAllowFrom = getEffectiveAllowFrom cfg w
      in if \<not> inAutoReplyStream cfg msg \<and> (\<not> mentioned \<and> \<not> patternMatch) then Some NotMentioned
         else if inAutoReplyStream cfg msg \<and>
                 (length streamAllowFrom > 0 \<and>
                  \<not> isSenderAllowed (String_of (sender_id msg)) (sender_email msg)
                       (sender_full_name msg) streamAllowFrom)
         then Some StreamSenderDenied
         else None)"

text \<open>
  The pairing block:
  \<^verbatim>\<open>
  const { code, created } = await core.channel.pairing.upsertPairingRequest({
    channel: "zulip", id: senderId, meta: { name: senderName, email: senderEmail },
  });
  if (created) {
    try {
      await sendZulipMessage(`dm:${senderId}`, core.channel.pairing.buildPairingReply({
        channel: "zulip", idLine: `Your Zulip user id: ${senderId}`, code,
      }), { accountId: account.accountId });
      opts.statusSink?.({ lastOutboundAt: Date.now() });
    } catch {}
  }
  \<close>
  An error of the send is caught and dropped; what the send did to the transport stays.
\<close>

definition requestPairing :: "env \<Rightarrow> string \<Rightarrow> world \<Rightarrow> world" where
  "requestPairing e senderId w =
     (let ((code, created), reqs) = upsertPairingRequest senderId (freshCode e) (pairingRequests w);
          w' = w\<lparr>pairingRequests := reqs\<rparr>
      in if created
         then w'\<lparr>transport :=
                   snd (sendZulipMessage (sending e) (''dm:'' @ senderId)
                          (buildPairingReply e (''Your Zulip user id: '' @ senderId) code)
                          \<lparr>mediaUrl = None\<rparr> (transport w'))\<rparr>
         else w')"

text \<open>
  The gate of a direct message:
  \<^verbatim>\<open>
  const effectiveAllowFrom = await getEffectiveAllowFrom();
  if (isDm) {
    if (dmPolicy === "disabled") return;
    const senderAllowed = isSenderAllowed({ senderId, senderEmail, senderName,
                                            allowFrom: effectiveAllowFrom });
    if (dmPolicy !== "open" && !senderAllowed) {
      if (dmPolicy === "pairing") { ... the pairing block ... }
      return;
    }
  }
  \<close>
\<close>

definition dmGate ::
  "env \<Rightarrow> monitor_config \<Rightarrow> ZulipMessage \<Rightarrow> world \<Rightarrow> outcome option \<times> world" where
  "dmGate e cfg msg w =
     (let senderId = String_of (sender_id msg);
          effectiveAllowFrom = getEffectiveAllowFrom cfg w
      in if dmPolicy cfg = PolicyDisabled then (Some DmDisabled, w)
         else
           (let senderAllowed = isSenderAllowed senderId (sender_email msg)
                                  (sender_full_name msg) effectiveAllowFrom
            in if dmPolicy cfg \<noteq> PolicyOpen \<and> \<not> senderAllowed
               then (Some DmDenied,
                     if dmPolicy cfg = PolicyPairing then requestPairing e senderId w else w)
               else (None, w)))"

text \<open>
  The reply target and the context:
  \<^verbatim>\<open>
  const to = isDm ? `dm:${senderId}`
    : streamInfo ? `stream:${streamInfo.streamName}:${streamInfo.topic}` : `dm:${senderId}`;
  ...
  const fromLabel = isDm ? `${senderName} (${senderEmail})`
    : `${senderName} in #${streamInfo?.streamName ?? "unknown"} > ${streamInfo?.topic ?? ""}`;
  ...
  const ctxPayload = core.channel.reply.finalizeInboundContext({
    Body: body, BodyForAgent: bodyText, RawBody: bodyText, CommandBody: bodyText,
    From: isDm ? `zulip:${senderId}` : `zulip:channel:${streamInfo?.streamName ?? "unknown"}`,
    To: to, SessionKey: sessionKey, AccountId: route.accountId, ChatType: chatType,
    ConversationLabel: fromLabel,
    GroupSubject: !isDm ? `#${streamInfo?.streamName} > ${streamInfo?.topic}` : undefined,
    SenderName: senderName, SenderId: senderId, Provider: "zulip", Surface: "zulip",
    MessageSid: String(msg.id), Timestamp: msg.timestamp * 1000,
    WasMentioned: !isDm ? true : undefined,
    CommandAuthorized: isDm || isSenderAllowed({ senderId, senderEmail, senderName,
                                                 allowFrom: effectiveAllowFrom }),
    OriginatingChannel: "zulip", OriginatingTo: to,
  });
  \<close>
\<close>

definition replyTarget :: "ZulipMessage \<Rightarrow> string" where
  "replyTarget msg =
     (if msg_type msg = Private then ''dm:'' @ String_of (sender_id msg)
      else case resolveStreamInfo msg of
             Some si \<Rightarrow> ''stream:'' @ streamName si @ '':'' @ topic si
           | None \<Rightarrow> ''dm:'' @ String_of (sender_id msg))"

definition fromLabel :: "ZulipMessage \<Rightarrow> string" where
  "fromLabel msg =
     (if msg_type msg = Private
      then sender_full_name msg @ '' ('' @ sender_email msg @ '')''
      else sender_full_name msg @ '' in #''
           @ (case resolveStreamInfo msg of None \<Rightarrow> ''unknown'' | Some si \<Rightarrow> streamName si)
           @ '' > ''
           @ (case resolveStreamInfo msg of None \<Rightarrow> [] | Some si \<Rightarrow> topic si))"

definition buildContext :: "monitor_config \<Rightarrow> ZulipMessage \<Rightarrow> world \<Rightarrow> string \<Rightarrow> inbound_ctx" where
  "buildContext cfg msg w bodyText =
     (let isDm = (msg_type msg = Private);
          senderId = String_of (sender_id msg);
          streamInfo = resolveStreamInfo msg;
          effectiveAllowFrom = getEffectiveAllowFrom cfg w
      in \<lparr>BodyForAgent = bodyText,
          RawBody = bodyText,
          CommandBody = bodyText,
          From = (if isDm then ''zulip:'' @ senderId
                  else ''zulip:channel:''
                       @ (case streamInfo of None \<Rightarrow> ''unknown'' | Some si \<Rightarrow> streamName si)),
          To = replyTarget msg,
          ChatType = (if isDm then Direct else Channel),
          ConversationLabel = fromLabel msg,
          GroupSubject =
            (if \<not> isDm
             then Some (''#'' @ (case streamInfo of None \<Rightarrow> ''undefined'' | Some si \<Rightarrow> streamName si)
                        @ '' > ''
                        @ (case streamInfo of None \<Rightarrow> ''undefined'' | Some si \<Rightarrow> topic si))
             else None),
          SenderName = sender_full_name msg,
          SenderId = senderId,
          MessageSid = String_of (msg_id msg),
          Timestamp = timestamp msg * 1000,
          WasMentioned = (if \<not> isDm then Some True else None),
          CommandAuthorized =
            (isDm \<or> isSenderAllowed senderId (sender_email msg) (sender_full_name msg)
                      effectiveAllowFrom)\<rparr>)"

text \<open>
  The end of the policy part of \<open>handleMessage\<close>:
  \<^verbatim>\<open>
  const bodyText = stripMention(rawText, botName);
  if (!bodyText) return;
  ...
  const ctxPayload = core.channel.reply.finalizeInboundContext({ ... });
  \<close>
\<close>

definition contextStage :: "monitor_config \<Rightarrow> ZulipMessage \<Rightarrow> world \<Rightarrow> outcome" where
  "contextStage cfg msg w =
     (let bodyText = stripMention (trim (content msg)) (botName cfg)
      in if bodyText = [] then EmptyBody
         else Dispatch (buildContext cfg msg w bodyText))"

text \<open>
  \<open>handleMessage\<close>, from its first line to the context:
  \<^verbatim>\<open>
  const handleMessage = async (msg: ZulipMessage) => {
    if (msg.sender_id === botUserId) return;
    const dedupeKey = `${account.accountId}:${msg.id}`;
    if (dedupeCheck(dedupeKey)) return;
    const senderId = String(msg.sender_id);
    ...
    const isDm = msg.type === "private";
    const streamInfo = resolveStreamInfo(msg);
    const rawText = msg.content?.trim() ?? "";
    if (!isDm) { ... the gate of a message that is not direct ... }
    // DM policy
    ... the gate of a direct message ...
    const to = ...;
    ... the end of the policy part ...
  \<close>
  The calls to the activity log, the system-event queue, the router and the session store
  that lie between these lines go to collaborators and change nothing here. What follows
  the context, the dispatch of the replies, is the next section.
\<close>

definition handleMessage ::
  "env \<Rightarrow> monitor_config \<Rightarrow> ZulipMessage \<Rightarrow> world \<Rightarrow> outcome \<times> world" where
  "handleMessage e cfg msg w =
     (if sender_id msg = botUserId cfg then (OwnMessage, w)
      else
        (let (seen, r) = dedupeCheck (dedupeKey (cfg_accountId cfg) (msg_id msg)) (clock e)
                           (recentIds w);
             w1 = w\<lparr>recentIds := r\<rparr>;
             isDm = (msg_type msg = Private)
         in if seen then (Duplicate, w1)
            else
              (case (if \<not> isDm then streamGate e cfg msg w1 else None) of
                 Some out \<Rightarrow> (out, w1)
               | None \<Rightarrow>
                   (case (if isDm then dmGate e cfg msg w1 else (None, w1)) of
                      (Some out, w2) \<Rightarrow> (out, w2)
                    | (None, w2) \<Rightarrow> (contextStage cfg msg w2, w2)))))"

text \<open>
  The messages of the events of a batch, in order, each with what the collaborators
  answer while it is handled:
  \<^verbatim>\<open>
  for (const event of events) {
    if (event.id > lastEventId) lastEventId = event.id;
    if (event.type === "message" && event.message) {
      try { await handleMessage(event.message); } catch (err) { ... }
    }
  }
  \<close>
  The result is the list of how each message ended, and the state after the last.
\<close>

fun handleMessages ::
  "monitor_config \<Rightarrow> (env \<times> ZulipMessage) list \<Rightarrow> world \<Rightarrow> outcome list \<times> world" where
  "handleMessages cfg [] w = ([], w)"
| "handleMessages cfg ((e, msg) # ms) w =
     (let (out, w') = handleMessage e cfg msg w;
          (outs, w'') = handleMessages cfg ms w'
      in (out # outs, w''))"

text \<open>
  A message is processed when \<open>handleMessage\<close> ends with the context, which it hands
  to reply generation; at every \<open>return\<close> before that line the message is dropped.
\<close>

definition dispatched :: "outcome \<Rightarrow> bool" where
  "dispatched out = (case out of Dispatch ctx \<Rightarrow> True | _ \<Rightarrow> False)"

section \<open>Reply delivery (monitor.ts, enqueueSend and deliver)\<close>

text \<open>
  \<^verbatim>\<open>
  // Send queue to ensure message ordering (prevents out-of-order delivery)
  let sendChain = Promise.resolve();
  const enqueueSend = (fn: () => Promise<void>): Promise<void> => {
    sendChain = sendChain.then(fn, fn);
    return sendChain;
  };
  ...
  deliver: async (payload: ReplyPayload) => {
    await enqueueSend(async () => {
      const text = core.channel.text.convertMarkdownTables(payload.text ?? "", tableMode);
      const chunkMode = core.channel.text.resolveChunkMode(cfg, "zulip", account.accountId);
      const chunks = core.channel.text.chunkMarkdownTextWithMode(text, textLimit, chunkMode);
      for (const chunk of chunks.length > 0 ? chunks : [text]) {
        if (!chunk) continue;
        await sendZulipMessage(to, chunk, { accountId: account.accountId });
      }
    });
  },
  onError: (err, info) => {
    logger.error?.(`zulip ${info.kind} reply failed: ${String(err)}`);
  },
  \<close>
  \<open>sendChain\<close> is created inside \<open>handleMessage\<close>, once for each message. A call
  of \<open>enqueueSend\<close> hangs its function behind the last one hung: by \<open>then(fn, fn)\<close>
  the function starts when the one before it has ended, by a return or by a throw, and at
  once when nothing is running. The chain is therefore the list of the functions that
  wait, next to the one that runs, and a function that waits is the list of chunks its
  loop will go through.

  Time passes only while a request is with the transport. The model is a machine over
  two kinds of events: \<open>deliver\<close> is called with a payload, or the transport answers the
  request in flight, with success or with failure.

  Modelled from the spec: the reply dispatcher (\<open>createReplyDispatcherWithTyping\<close> and
  \<open>dispatchReplyFromConfig\<close> of the host), which is not part of this repository's
  sources. It calls \<open>deliver\<close> once for each payload of the reply, at any time, also
  while earlier deliveries run; and by the spec "a delivery failure for one chunk is
  logged and does not abort delivery of subsequent chunks or future messages - partial
  delivery is an accepted outcome, not escalated to the Event Loop": the dispatcher
  passes the error of a rejected delivery to \<open>onError\<close>, which writes it to the log,
  and goes on.
\<close>

text \<open>The chunks the loop goes through: \<^verbatim>\<open>chunks.length > 0 ? chunks : [text]\<close>.\<close>

definition chunksToSend :: "(string \<Rightarrow> string list) \<Rightarrow> string \<Rightarrow> string list" where
  "chunksToSend chunker text = (if length (chunker text) > 0 then chunker text else [text])"

text \<open>
  The call \<open>sendZulipMessage(to, chunk, { accountId })\<close> up to its request: the error it
  throws before it reaches the transport (no credentials, a blank target, a blank chunk),
  or the request it makes. There is no media URL, so the content is the trimmed chunk.
  That this is what \<open>sendZulipMessage\<close> does is the lemma \<open>sendZulipMessage_attempt\<close>
  below.
\<close>

definition attempt :: "send_env \<Rightarrow> string \<Rightarrow> string \<Rightarrow> send_error + request" where
  "attempt e to chunk =
     (let acc = loadedAccount e in
      if missing (serverUrl acc) \<or> missing (botEmail acc) \<or> missing (apiKey acc)
      then Inl CredentialsMissing
      else
        case createZulipClient (the (serverUrl acc)) (the (botEmail acc)) (the (apiKey acc)) of
          Inl err \<Rightarrow> Inl err
        | Inr client \<Rightarrow>
            (case parseZulipTarget to of
               Inl err \<Rightarrow> Inl err
             | Inr tgt \<Rightarrow>
                 if trim chunk = [] then Inl MessageEmpty
                 else Inr (Message tgt (trim chunk))))"

text \<open>
  The loop of one delivery, from some position up to its next request: it ends, or
  \<open>sendZulipMessage\<close> throws before it reaches the transport, or a request is in
  flight and the chunks after it remain.
\<close>

datatype progress = Ended | Threw send_error | InFlight request "string list"

fun runLoop :: "send_env \<Rightarrow> string \<Rightarrow> string list \<Rightarrow> progress" where
  "runLoop e to [] = Ended"
| "runLoop e to (chunk # rest) =
     (if chunk = [] then runLoop e to rest
      else case attempt e to chunk of
             Inl err \<Rightarrow> Threw err
           | Inr r \<Rightarrow> InFlight r rest)"

datatype event = Submitted request | Completed request bool

record dispatch =
  waiting :: "string list list"               \<comment> \<open>the deliveries hung behind the running one\<close>
  running :: "(request \<times> string list) option"  \<comment> \<open>the request in flight and the chunks after it\<close>
  events :: "event list"                      \<comment> \<open>what happened at the transport, oldest first\<close>
  logged :: "send_error list"                 \<comment> \<open>the errors passed to \<open>onError\<close>, oldest first\<close>

definition dispatch_init :: dispatch where
  "dispatch_init = \<lparr>waiting = [], running = None, events = [], logged = []\<rparr>"

text \<open>
  The chain moves on, with nothing in flight: the deliveries in the list start one after
  the other, until one has a request in flight. A delivery that ends by a throw is
  rejected, and its error goes to \<open>onError\<close>.
\<close>

fun advance :: "send_env \<Rightarrow> string \<Rightarrow> string list list \<Rightarrow> dispatch \<Rightarrow> dispatch" where
  "advance e to [] st = st\<lparr>waiting := [], running := None\<rparr>"
| "advance e to (task # tasks) st =
     (case runLoop e to task of
        Ended \<Rightarrow> advance e to tasks st
      | Threw err \<Rightarrow> advance e to tasks (st\<lparr>logged := logged st @ [err]\<rparr>)
      | InFlight r rest \<Rightarrow>
          st\<lparr>waiting := tasks, running := Some (r, rest), events := events st @ [Submitted r]\<rparr>)"

datatype action =
    Deliver string        \<comment> \<open>\<open>deliver\<close> is called; the text is that of the payload, tables converted\<close>
  | Settle bool           \<comment> \<open>the transport answers the request in flight: \<open>True\<close> for success\<close>

text \<open>
  One event. A delivery is hung at the end of the chain, and starts at once when nothing
  runs. When the request in flight succeeds, the loop of its delivery goes on with the
  chunks after it; when it fails, \<open>sendZulipMessage\<close> throws out of the loop (the
  error of \<open>sendZulipApiMessage\<close>), the delivery ends by that throw, and the chain
  moves on to the deliveries that wait.
\<close>

fun step :: "send_env \<Rightarrow> string \<Rightarrow> (string \<Rightarrow> string list) \<Rightarrow> dispatch \<Rightarrow> action \<Rightarrow> dispatch" where
  "step e to chunker st (Deliver text) =
     (case running st of
        None \<Rightarrow> advance e to (waiting st @ [chunksToSend chunker text]) st
      | Some inflight \<Rightarrow> st\<lparr>waiting := waiting st @ [chunksToSend chunker text]\<rparr>)"
| "step e to chunker st (Settle ok) =
     (case running st of
        None \<Rightarrow> st
      | Some (r, rest) \<Rightarrow>
          (let st' = st\<lparr>events := events st @ [Completed r ok]\<rparr>
           in if ok then advance e to (rest # waiting st) st'
              else advance e to (waiting st) (st'\<lparr>logged := logged st' @ [ApiError]\<rparr>)))"

definition run :: "send_env \<Rightarrow> string \<Rightarrow> (string \<Rightarrow> string list) \<Rightarrow> action list \<Rightarrow> dispatch" where
  "run e to chunker acts = foldl (step e to chunker) dispatch_init acts"


text \<open>The requests submitted, and the answers of the transport, in order.\<close>

fun requests :: "event list \<Rightarrow> request list" where
  "requests [] = []"
| "requests (Submitted r # es) = r # requests es"
| "requests (Completed r ok # es) = requests es"

fun answers :: "event list \<Rightarrow> bool list" where
  "answers [] = []"
| "answers (Submitted r # es) = answers es"
| "answers (Completed r ok # es) = ok # answers es"


section \<open>A message from its first line to its last, and a batch of events\<close>

text \<open>
  After the context, \<open>handleMessage\<close> creates the chain and the dispatcher and waits for
  the reply:
  \<^verbatim>\<open>
  let sendChain = Promise.resolve();
  ...
  const { dispatcher, replyOptions, markDispatchIdle } =
    core.channel.reply.createReplyDispatcherWithTyping({ ..., deliver, onError, ... });
  await core.channel.reply.dispatchReplyFromConfig({ ctx: ctxPayload, cfg, dispatcher, ... });
  markDispatchIdle();
  \<close>
  What the collaborators do for one message after the context: the chunker (table
  conversion and chunking), and the reply. Reply generation throws, and so does
  \<open>handleMessage\<close>; or it gives the calls of \<open>deliver\<close>, which come, mixed with the
  answers of the transport, as the events of the machine. The requests for typing
  indicators are left out.
\<close>

record reply_env =
  reply_chunker :: "string \<Rightarrow> string list"
  replies :: "action list option"             \<comment> \<open>\<open>None\<close>: \<open>dispatchReplyFromConfig\<close> throws\<close>

text \<open>How the promise of \<open>handleMessage\<close> settles.\<close>

datatype settled = Fulfilled | Rejected

text \<open>
  The end of \<open>handleMessage\<close>. A message that ended at a \<open>return\<close> has nothing to
  dispatch, and its promise is fulfilled. For a message with a context, the chain is new
  and empty; when reply generation throws, the promise is rejected; otherwise the events
  run on the chain, the target being that of the context, and the promise is fulfilled.
\<close>

definition dispatchReply :: "env \<Rightarrow> reply_env \<Rightarrow> outcome \<Rightarrow> settled \<times> outcome \<times> dispatch" where
  "dispatchReply e re out =
     (case out of
        Dispatch ctx \<Rightarrow>
          (case replies re of
             None \<Rightarrow> (Rejected, out, dispatch_init)
           | Some acts \<Rightarrow>
               (Fulfilled, out, run (sending e) (To ctx) (reply_chunker re) acts))
      | _ \<Rightarrow> (Fulfilled, out, dispatch_init))"

text \<open>\<open>handleMessage\<close> from its first line to its last; the requests of the dispatch reach the transport.\<close>

definition handleAndDispatch ::
  "env \<Rightarrow> reply_env \<Rightarrow> monitor_config \<Rightarrow> ZulipMessage \<Rightarrow> world
     \<Rightarrow> (settled \<times> outcome \<times> dispatch) \<times> world" where
  "handleAndDispatch e re cfg msg w =
     (let (out, w') = handleMessage e cfg msg w;
          r = dispatchReply e re out
      in (r, w'\<lparr>transport := transport w' @ requests (events (snd (snd r)))\<rparr>))"

text \<open>
  The events of a batch:
  \<^verbatim>\<open>
  for (const event of events) {
    if (event.id > lastEventId) lastEventId = event.id;
    if (event.type === "message" && event.message) {
      try {
        await handleMessage(event.message);
      } catch (err) {
        logger.error?.(`zulip handler error: ${String(err)}`);
      }
    }
  }
  \<close>
  The list holds the message events, each with what the collaborators do while it is
  handled. The number counts the lines \<open>zulip handler error\<close> of the log.
\<close>

fun handleEvents ::
  "monitor_config \<Rightarrow> (env \<times> reply_env \<times> ZulipMessage) list \<Rightarrow> world \<Rightarrow> nat
     \<Rightarrow> (settled \<times> outcome \<times> dispatch) list \<times> world \<times> nat" where
  "handleEvents cfg [] w n = ([], w, n)"
| "handleEvents cfg ((e, re, msg) # evs) w n =
     (let (r, w') = handleAndDispatch e re cfg msg w;
          n' = (if fst r = Rejected then Suc n else n);
          (rs, w'', n'') = handleEvents cfg evs w' n'
      in (r # rs, w'', n''))"


section \<open>What to say of a delivery\<close>

text \<open>The chunks produced by the payloads delivered, in the order of production.\<close>

fun produced :: "(string \<Rightarrow> string list) \<Rightarrow> action list \<Rightarrow> string list" where
  "produced chunker [] = []"
| "produced chunker (Deliver text # acts) = chunksToSend chunker text @ produced chunker acts"
| "produced chunker (Settle ok # acts) = produced chunker acts"

text \<open>The same, payload by payload.\<close>

fun delivered :: "(string \<Rightarrow> string list) \<Rightarrow> action list \<Rightarrow> string list list" where
  "delivered chunker [] = []"
| "delivered chunker (Deliver text # acts) = chunksToSend chunker text # delivered chunker acts"
| "delivered chunker (Settle ok # acts) = delivered chunker acts"

text \<open>The contents of the messages submitted to the transport, in the order of submission.\<close>

fun submitted :: "event list \<Rightarrow> string list" where
  "submitted [] = []"
| "submitted (Submitted (Message t c) # es) = c # submitted es"
| "submitted (ev # es) = submitted es"

text \<open>
  The transport as the events drive it, from the request in flight (if any): a
  submission is in order only when nothing is in flight, a completion only for the
  request in flight. The result is the request in flight at the end, or \<open>None\<close> when
  the events are out of order.
\<close>

fun serial :: "request option \<Rightarrow> event list \<Rightarrow> request option option" where
  "serial cur [] = Some cur"
| "serial None (Submitted r # es) = serial (Some r) es"
| "serial (Some r) (Completed r' ok # es) = (if r = r' then serial None es else None)"
| "serial (Some r) (Submitted r' # es) = None"
| "serial None (Completed r ok # es) = None"

text \<open>The chunks the chain still holds: those after the request in flight, and those that wait.\<close>

definition pendingChunks :: "dispatch \<Rightarrow> string list" where
  "pendingChunks st =
     (case running st of None \<Rightarrow> [] | Some (r, rest) \<Rightarrow> rest) @ concat (waiting st)"

text \<open>
  The deliveries read one after the other, the sequential reading: payload by payload
  in the order of delivery, and within a payload chunk by chunk; an empty
  chunk is passed over; each request takes the next answer of the transport; a request
  that fails, or a send that throws before its request, ends the delivery of that
  payload with that error, and the next payload follows. This second definition does not
  go through \<open>step\<close>, \<open>advance\<close> and \<open>runLoop\<close>: it is what the machine is
  compared with.

  A delivery on a list of answers finishes, with its events, its error (a list of at most
  one) and the answers it has not used; or it stops at a request for which no answer is
  left.
\<close>

datatype delivery =
    Finished "event list" "send_error list" "bool list"
  | Pending "event list" request "string list"

fun followed :: "event list \<Rightarrow> delivery \<Rightarrow> delivery" where
  "followed evs (Finished evs' errs rest) = Finished (evs @ evs') errs rest"
| "followed evs (Pending evs' r chunks) = Pending (evs @ evs') r chunks"

fun deliverChunks :: "send_env \<Rightarrow> string \<Rightarrow> string list \<Rightarrow> bool list \<Rightarrow> delivery" where
  "deliverChunks e to [] ans = Finished [] [] ans"
| "deliverChunks e to (chunk # chunks) ans =
     (if chunk = [] then deliverChunks e to chunks ans
      else case attempt e to chunk of
             Inl err \<Rightarrow> Finished [] [err] ans
           | Inr r \<Rightarrow>
               (case ans of
                  [] \<Rightarrow> Pending [Submitted r] r chunks
                | ok # ans' \<Rightarrow>
                    if ok
                    then followed [Submitted r, Completed r True] (deliverChunks e to chunks ans')
                    else Finished [Submitted r, Completed r False] [ApiError] ans'))"

text \<open>One stretch of a dispatch after another: the events and the log of both, in order.\<close>

definition after :: "event list \<Rightarrow> send_error list \<Rightarrow> dispatch \<Rightarrow> dispatch" where
  "after evs errs d = d\<lparr>events := evs @ events d, logged := errs @ logged d\<rparr>"

fun deliverAll :: "send_env \<Rightarrow> string \<Rightarrow> string list list \<Rightarrow> bool list \<Rightarrow> dispatch" where
  "deliverAll e to [] ans = dispatch_init"
| "deliverAll e to (payload # payloads) ans =
     (case deliverChunks e to payload ans of
        Finished evs errs ans' \<Rightarrow> after evs errs (deliverAll e to payloads ans')
      | Pending evs r chunks \<Rightarrow>
          \<lparr>waiting = payloads, running = Some (r, chunks), events = evs, logged = []\<rparr>)"

text \<open>A chunker for the examples: every character is a chunk.\<close>

definition chunk1 :: "string \<Rightarrow> string list" where
  "chunk1 text = map (\<lambda>c. [c]) text"

section \<open>Conditions of the claims, and example inputs\<close>

text \<open>
  A media attachment is resolved when a media URL is given, the media loads and the
  upload succeeds: the \<open>try\<close> block of \<open>sendZulipMessage\<close> runs to its end.
\<close>

definition mediaAttached :: "send_env \<Rightarrow> send_opts \<Rightarrow> bool" where
  "mediaAttached e opts =
     (case map_option trim (mediaUrl opts) of
        None \<Rightarrow> False
      | Some url \<Rightarrow>
          url \<noteq> [] \<and>
          (case loadWebMedia e url of
             None \<Rightarrow> False
           | Some m \<Rightarrow>
               uploadZulipFile e (case fileName m of None \<Rightarrow> ''upload'' | Some n \<Rightarrow> n) \<noteq> None))"

definition mediaUrlIsHttp :: "send_opts \<Rightarrow> bool" where
  "mediaUrlIsHttp opts =
     (case map_option trim (mediaUrl opts) of None \<Rightarrow> False | Some url \<Rightarrow> isHttpUrl url)"

definition isMessage :: "request \<Rightarrow> bool" where
  "isMessage r = (case r of Message t c \<Rightarrow> True | Upload n \<Rightarrow> False)"

text \<open>
  An environment of a send: the credentials are configured, no media loads and no upload
  succeeds, and the transport accepts every message and gives it the id 1.
\<close>

definition send_env0 :: send_env where
  "send_env0 =
     \<lparr>loadedAccount = \<lparr>accountId = ''default'', serverUrl = Some ''https://chat.example.org'',
                        botEmail = Some ''bot@example.org'', apiKey = Some ''key''\<rparr>,
      loadWebMedia = (\<lambda>u. None),
      uploadZulipFile = (\<lambda>n. None),
      sendZulipApiMessage = (\<lambda>t c. Some 1)\<rparr>"


text \<open>
  The send of the pairing reply gets as far as the transport when the loaded account has
  its credentials and \<open>createZulipClient\<close> accepts them.
\<close>

definition clientReady :: "send_env \<Rightarrow> bool" where
  "clientReady e =
     (\<not> missing (serverUrl (loadedAccount e)) \<and> \<not> missing (botEmail (loadedAccount e))
      \<and> \<not> missing (apiKey (loadedAccount e))
      \<and> createZulipClient (the (serverUrl (loadedAccount e))) (the (botEmail (loadedAccount e)))
           (the (apiKey (loadedAccount e))) = Inr ())"

text \<open>The body that reaches reply generation, if the message gets there.\<close>

definition bodyOf :: "outcome \<Rightarrow> string option" where
  "bodyOf out = (case out of Dispatch ctx \<Rightarrow> Some (BodyForAgent ctx) | _ \<Rightarrow> None)"

text \<open>
  A text is tidy when it is not empty, neither starts nor ends with white space, and all
  its white space is single spaces between other characters.
\<close>

fun singleSpaced :: "string \<Rightarrow> bool" where
  "singleSpaced [] = True"
| "singleSpaced [c] = (\<not> isSpace c)"
| "singleSpaced (c # d # cs) =
     ((if isSpace c then c = CHR '' '' \<and> \<not> isSpace d else True) \<and> singleSpaced (d # cs))"

definition tidy :: "string \<Rightarrow> bool" where
  "tidy s = (s \<noteq> [] \<and> \<not> isSpace (hd s) \<and> singleSpaced s)"

text \<open>Example inputs: an environment, an empty state, two configurations, three messages.\<close>

definition env0 :: env where
  "env0 =
     \<lparr>clock = 0,
      matchesMentionPatterns = (\<lambda>t. False),
      buildPairingReply = (\<lambda>idLine code. idLine @ '' / Pairing code: '' @ code),
      freshCode = ''K7Q2'',
      sending = send_env0\<rparr>"

definition world0 :: world where
  "world0 = \<lparr>recentIds = [], allowFromStore = [], pairingRequests = [], transport = []\<rparr>"

definition cfg_pairing :: monitor_config where
  "cfg_pairing =
     \<lparr>cfg_accountId = ''default'', cfg_dmPolicy = None,
      cfg_allowFrom = Some [Str ''User:Alice@Example.org''],
      cfg_autoReplyStreams = Some [''general''], botUserId = 1, botName = ''Bot''\<rparr>"

definition cfg_auto :: monitor_config where
  "cfg_auto =
     \<lparr>cfg_accountId = ''default'', cfg_dmPolicy = None, cfg_allowFrom = None,
      cfg_autoReplyStreams = Some [''general''], botUserId = 1, botName = ''Bot''\<rparr>"

definition dm_alice :: ZulipMessage where
  "dm_alice =
     \<lparr>msg_id = 7, sender_id = 42, sender_email = ''alice@example.ORG'',
      sender_full_name = ''Alice'', msg_type = Private, stream_id = None,
      display_recipient = RecipientUsers [], subject = None, content = ''hello'',
      timestamp = 1700000000\<rparr>"

definition dm_bob :: ZulipMessage where
  "dm_bob =
     \<lparr>msg_id = 8, sender_id = 43, sender_email = ''bob@example.org'',
      sender_full_name = ''Bob'', msg_type = Private, stream_id = None,
      display_recipient = RecipientUsers [], subject = None, content = ''hi'',
      timestamp = 1700000001\<rparr>"

definition stream_carol :: ZulipMessage where
  "stream_carol =
     \<lparr>msg_id = 9, sender_id = 44, sender_email = ''carol@example.org'',
      sender_full_name = ''Carol'', msg_type = Stream, stream_id = Some 5,
      display_recipient = RecipientName ''General'', subject = Some ''greetings'',
      content = ''hello  world'', timestamp = 1700000002\<rparr>"


definition cfg_open :: monitor_config where
  "cfg_open =
     \<lparr>cfg_accountId = ''default'', cfg_dmPolicy = Some PolicyOpen, cfg_allowFrom = None,
      cfg_autoReplyStreams = Some [''general''], botUserId = 1, botName = ''Bot''\<rparr>"

text \<open>A direct message and a stream message that hold nothing but a mention of the bot.\<close>

definition dm_mention :: ZulipMessage where
  "dm_mention =
     \<lparr>msg_id = 11, sender_id = 45, sender_email = ''dave@example.org'',
      sender_full_name = ''Dave'', msg_type = Private, stream_id = None,
      display_recipient = RecipientUsers [], subject = None, content = '' @**bot**  '',
      timestamp = 1700000003\<rparr>"

definition stream_mention :: ZulipMessage where
  "stream_mention =
     \<lparr>msg_id = 12, sender_id = 45, sender_email = ''dave@example.org'',
      sender_full_name = ''Dave'', msg_type = Stream, stream_id = Some 6,
      display_recipient = RecipientName ''random'', subject = Some ''help'',
      content = ''@**Bot**'', timestamp = 1700000004\<rparr>"

text \<open>A stream message outside the auto-reply streams that mentions the bot and asks something.\<close>

definition stream_ask :: ZulipMessage where
  "stream_ask =
     \<lparr>msg_id = 13, sender_id = 45, sender_email = ''dave@example.org'',
      sender_full_name = ''Dave'', msg_type = Stream, stream_id = Some 6,
      display_recipient = RecipientName ''random'', subject = Some ''help'',
      content = ''@**bot** what time is it'', timestamp = 1700000005\<rparr>"

section \<open>Properties of the backoff\<close>

lemma monitorLoop_append:
  "Aborted \<notin> set ps \<Longrightarrow> monitorLoop (ps @ qs) s = monitorLoop qs (monitorLoop ps s)"
proof (induction ps arbitrary: s)
  case Nil
  show ?case by simp
next
  case (Cons p ps)
  then show ?case by (cases p) simp_all
qed

lemma delay_Suc: "min (delay i * 2) MAX_BACKOFF_MS = delay (Suc i)"
proof -
  consider "i < 4" | "i = 4" | "5 \<le> i" by linarith
  then show ?thesis
  proof cases
    case 1
    then have "i = 0 \<or> i = 1 \<or> i = 2 \<or> i = 3" by linarith
    then show ?thesis by (auto simp: delay_def MAX_BACKOFF_MS_def)
  next
    case 2
    then show ?thesis by (simp add: delay_def MAX_BACKOFF_MS_def)
  next
    case 3
    then show ?thesis by (simp add: delay_def MAX_BACKOFF_MS_def)
  qed
qed

lemma failures_from:
  "monitorLoop (replicate n RegisterFails) \<lparr>backoffMs = delay i, slept = ds\<rparr> =
     \<lparr>backoffMs = delay (i + n), slept = ds @ map delay [i..<i + n]\<rparr>"
proof (induction n arbitrary: i ds)
  case 0
  show ?case by simp
next
  case (Suc n)
  have "monitorLoop (replicate (Suc n) RegisterFails) \<lparr>backoffMs = delay i, slept = ds\<rparr> =
        monitorLoop (replicate n RegisterFails)
          \<lparr>backoffMs = delay (Suc i), slept = ds @ [delay i]\<rparr>"
    by (simp add: backoff_def delay_Suc)
  also have "\<dots> = \<lparr>backoffMs = delay (Suc i + n),
                     slept = (ds @ [delay i]) @ map delay [Suc i..<Suc i + n]\<rparr>"
    by (rule Suc.IH)
  also have "\<dots> = \<lparr>backoffMs = delay (i + Suc n), slept = ds @ map delay [i..<i + Suc n]\<rparr>"
    by (simp add: upt_conv_Cons del: upt_Suc)
  finally show ?case .
qed

lemma delay_0: "delay 0 = 1000"
  by (simp add: delay_def)

lemma poll_failures:
  "slept (monitorLoop (map PollFails ns) s) = slept s @ replicate (length ns) 1000"
proof (induction ns arbitrary: s)
  case Nil
  show ?case by simp
next
  case (Cons n ns)
  have "slept (backoff (registered s)) = slept s @ [1000]"
    by (simp add: backoff_def registered_def)
  with Cons.IH [of "backoff (registered s)"] show ?case
    by (simp add: replicate_append_same)
qed

text \<open>
  C7. On repeated registration or poll failure the successive delays are 1s, 2s, 4s, 8s,
  16s, 30s, 30s, ...: each failure sleeps the current backoff and then doubles it up to
  the ceiling of 30 seconds; and a successful registration puts the backoff back to 1
  second at once, so that the failure after it sleeps 1 second again, whatever happened
  before. The first conjunct gives the delays of \<open>n\<close> registration failures in a row
  from the start, the second spells out the first seven, the third says that the delays
  stay at 30 seconds from the sixth on, the fourth is the reset, the fifth is the
  sequence of delays when a poll fails after a successful registration and the
  registrations after it fail, whatever the backoff was before; and by the last, passes
  that all register and then fail in polling sleep 1 second each.
\<close>

theorem backoff_sequence:
  "slept (monitorLoop (replicate n RegisterFails) loop_init) = map delay [0..<n]
   \<and> slept (monitorLoop (replicate 7 RegisterFails) loop_init) =
       [1000, 2000, 4000, 8000, 16000, 30000, 30000]
   \<and> delay (5 + k) = 30000
   \<and> backoffMs (registered s) = 1000
   \<and> slept (monitorLoop (PollFails m # replicate n RegisterFails) s) =
       slept s @ map delay [0..<Suc n]
   \<and> slept (monitorLoop (map PollFails ns) s) = slept s @ replicate (length ns) 1000"
proof -
  have init: "loop_init = \<lparr>backoffMs = delay 0, slept = []\<rparr>"
    by (simp add: loop_init_def delay_0)
  have a: "slept (monitorLoop (replicate n RegisterFails) loop_init) = map delay [0..<n]" for n
    unfolding init failures_from by simp
  have b: "map delay [0..<7] = [1000, 2000, 4000, 8000, 16000, 30000, 30000]"
    by (simp add: delay_def upt_conv_Cons del: upt_Suc)
  have c: "delay (5 + k) = 30000"
    by (simp add: delay_def)
  have d: "backoffMs (registered s) = 1000"
    by (simp add: registered_def)
  have "backoff (registered s) = \<lparr>backoffMs = delay 1, slept = slept s @ [delay 0]\<rparr>"
    by (simp add: backoff_def registered_def delay_def MAX_BACKOFF_MS_def)
  then have "monitorLoop (PollFails m # replicate n RegisterFails) s =
      \<lparr>backoffMs = delay (1 + n), slept = (slept s @ [delay 0]) @ map delay [1..<1 + n]\<rparr>"
    using failures_from [of n 1 "slept s @ [delay 0]"] by simp
  then have e: "slept (monitorLoop (PollFails m # replicate n RegisterFails) s) =
      slept s @ map delay [0..<Suc n]"
    by (simp add: upt_conv_Cons del: upt_Suc)
  show ?thesis using a [of n] a [of 7] b c d e poll_failures [of ns s] by simp
qed

section \<open>Properties of the dedup cache\<close>

lemma has_append: "has (r @ [(key, now)]) key"
  by (simp add: has_def)

lemma has_entry: "(key, t) \<in> set r \<Longrightarrow> has r key"
  by (force simp: has_def)

lemma cleanup_keeps:
  "(key, t) \<in> set r \<Longrightarrow> now - t \<le> RECENT_MESSAGE_TTL_MS \<Longrightarrow> (key, t) \<in> set (cleanup now r)"
  by (simp add: cleanup_def)

lemma cleanup_subset: "set (cleanup now r) \<subseteq> set r"
  by (auto simp: cleanup_def)

lemma dedupeCheck_keeps:
  "(key, t) \<in> set r \<Longrightarrow> now - t \<le> RECENT_MESSAGE_TTL_MS
   \<Longrightarrow> (key, t) \<in> set (snd (dedupeCheck k now r))"
  by (simp add: dedupeCheck_def Let_def cleanup_keeps)

lemma dedupeChecks_keeps:
  "(key, t) \<in> set r \<Longrightarrow> list_all (\<lambda>(k, now). now - t \<le> RECENT_MESSAGE_TTL_MS) cs
   \<Longrightarrow> (key, t) \<in> set (dedupeChecks cs r)"
proof (induction cs arbitrary: r)
  case Nil
  then show ?case by simp
next
  case (Cons c cs)
  obtain k now where c: "c = (k, now)" by (cases c)
  from Cons.prems c have "(key, t) \<in> set (snd (dedupeCheck k now r))"
    by (simp add: dedupeCheck_keeps)
  with Cons.IH Cons.prems c show ?case by simp
qed

lemma dedupeCheck_first:
  "\<not> has r key \<Longrightarrow> dedupeCheck key now r = (False, cleanup now r @ [(key, now)])"
proof -
  assume "\<not> has r key"
  with cleanup_subset [of now r] have "\<not> has (cleanup now r) key"
    by (auto simp: has_def)
  then show ?thesis by (simp add: dedupeCheck_def)
qed

lemma distinct_cleanup: "distinct (map fst r) \<Longrightarrow> distinct (map fst (cleanup now r))"
  by (simp add: cleanup_def distinct_map_filter)

lemma dedupeCheck_distinct:
  "distinct (map fst r) \<Longrightarrow> distinct (map fst (snd (dedupeCheck key now r)))"
  by (simp add: dedupeCheck_def Let_def distinct_cleanup has_def)

lemma dedupeCheck_removed:
  "{e \<in> set r. e \<notin> set (snd (dedupeCheck key now r))} =
     (if length r > RECENT_MAX
      then {e \<in> set r. now - snd e > RECENT_MESSAGE_TTL_MS} else {})"
  by (auto simp: dedupeCheck_def Let_def cleanup_def RECENT_MESSAGE_TTL_MS_def)

text \<open>
  C6. For every message identifier \<open>m\<close> and account \<open>a\<close>: the first check of the key that
  combines them (the cache does not hold it) records the key with the current time and
  answers "not seen"; a second check of the same key answers "already seen" when it
  comes within the window of 5 minutes, with any number of checks of any keys in
  between, each within the window; and a check removes entries only when the cache holds
  more than 2000 of them, and then exactly those older than 5 minutes.
\<close>

theorem dedupe_first_second_sweep:
  assumes "\<not> has r (dedupeKey a m)"
    and "list_all (\<lambda>(k, now). now - t1 \<le> RECENT_MESSAGE_TTL_MS) between"
    and "t2 - t1 \<le> RECENT_MESSAGE_TTL_MS"
  shows "fst (dedupeCheck (dedupeKey a m) t1 r) = False
    \<and> (dedupeKey a m, t1) \<in> set (snd (dedupeCheck (dedupeKey a m) t1 r))
    \<and> fst (dedupeCheck (dedupeKey a m) t2
          (dedupeChecks between (snd (dedupeCheck (dedupeKey a m) t1 r)))) = True
    \<and> {e \<in> set c. e \<notin> set (snd (dedupeCheck key now c))} =
        (if length c > RECENT_MAX
         then {e \<in> set c. now - snd e > RECENT_MESSAGE_TTL_MS} else {})"
proof -
  let ?k = "dedupeKey a m"
  let ?r1 = "snd (dedupeCheck ?k t1 r)"
  have first: "dedupeCheck ?k t1 r = (False, cleanup t1 r @ [(?k, t1)])"
    using assms(1) by (rule dedupeCheck_first)
  then have rec: "(?k, t1) \<in> set ?r1" by simp
  then have "(?k, t1) \<in> set (dedupeChecks between ?r1)"
    using assms(2) by (rule dedupeChecks_keeps)
  then have "(?k, t1) \<in> set (cleanup t2 (dedupeChecks between ?r1))"
    using assms(3) by (rule cleanup_keeps)
  then have "has (cleanup t2 (dedupeChecks between ?r1)) ?k"
    by (rule has_entry)
  then have second: "fst (dedupeCheck ?k t2 (dedupeChecks between ?r1)) = True"
    by (simp add: dedupeCheck_def)
  show ?thesis
    using first rec second dedupeCheck_removed [of c key now] by simp
qed

theorem dedupe_first_second_sweep_witness:
  "fst (dedupeCheck (dedupeKey ''default'' 7) 0 []) = False
   \<and> (dedupeKey ''default'' 7, 0) \<in> set (snd (dedupeCheck (dedupeKey ''default'' 7) 0 []))
   \<and> fst (dedupeCheck (dedupeKey ''default'' 7) 300000
        (dedupeChecks [(''default:8'', 1000)]
          (snd (dedupeCheck (dedupeKey ''default'' 7) 0 [])))) = True"
proof -
  have 1: "\<not> has [] (dedupeKey ''default'' 7)"
    by (simp add: has_def)
  have 2: "list_all (\<lambda>(k, now). now - 0 \<le> RECENT_MESSAGE_TTL_MS) [(''default:8'', 1000)]"
    by (simp add: RECENT_MESSAGE_TTL_MS_def)
  have 3: "300000 - 0 \<le> RECENT_MESSAGE_TTL_MS"
    by (simp add: RECENT_MESSAGE_TTL_MS_def)
  show ?thesis
    using dedupe_first_second_sweep [OF 1 2 3] by simp
qed

section \<open>Properties of strings and of the allow-list\<close>

lemma char_of_iff: "char_of (n::nat) = c \<longleftrightarrow> n mod 256 = of_char c"
  by (simp add: char_of_eq_iff take_bit_eq_mod)

lemma char_of_iff2: "c = char_of (n::nat) \<longleftrightarrow> n mod 256 = of_char c"
  using char_of_iff [of n c] by auto

lemmas str_eval = trim_def isSpace_def toLowerCase_def lowerChar_def startsWith_def
  startsWithCI_def char_of_iff char_of_iff2

lemma of_char_lt: "of_char c < (256::nat)"
proof -
  have "of_char c = (of_char (char_of (of_char c :: nat)) :: nat)" by simp
  also have "\<dots> = (of_char c :: nat) mod 256" by (simp only: of_char_of)
  finally have "(of_char c :: nat) = of_char c mod 256" .
  then show ?thesis by (metis mod_less_divisor zero_less_numeral)
qed

lemma isSpace_lowerChar: "isSpace (lowerChar c) = isSpace c"
  by (auto simp: isSpace_def lowerChar_def Let_def)

lemma lowerChar_idem: "lowerChar (lowerChar c) = lowerChar c"
  by (auto simp: lowerChar_def Let_def)

lemma lowerChar_comp: "lowerChar \<circ> lowerChar = lowerChar"
  by (rule ext) (simp add: lowerChar_idem)

lemma toLowerCase_idem: "toLowerCase (toLowerCase s) = toLowerCase s"
  by (simp add: toLowerCase_def lowerChar_idem)

lemma trim_toLowerCase: "trim (toLowerCase s) = toLowerCase (trim s)"
proof -
  have c: "isSpace \<circ> lowerChar = isSpace"
    by (rule ext) (simp add: isSpace_lowerChar)
  show ?thesis
    by (simp add: trim_def toLowerCase_def dropWhile_map rev_map c)
qed

lemma startsWithCI_toLowerCase: "startsWithCI (toLowerCase s) p = startsWithCI s p"
  by (simp add: startsWithCI_def toLowerCase_def take_map lowerChar_comp)

lemma stripAllowPrefix_toLowerCase:
  "stripAllowPrefix (toLowerCase s) = toLowerCase (stripAllowPrefix s)"
  by (simp add: stripAllowPrefix_def startsWithCI_toLowerCase) (simp add: toLowerCase_def drop_map)

lemma normalizeAllowEntry_toLowerCase:
  "normalizeAllowEntry (toLowerCase s) = normalizeAllowEntry s"
  by (simp add: normalizeAllowEntry_def trim_toLowerCase stripAllowPrefix_toLowerCase
      toLowerCase_idem)

lemma normalizeAllowEntry_ci:
  "toLowerCase a = toLowerCase b \<Longrightarrow> normalizeAllowEntry a = normalizeAllowEntry b"
  by (metis normalizeAllowEntry_toLowerCase)

lemma toLowerCase_Nil: "toLowerCase s = [] \<longleftrightarrow> s = []"
  by (simp add: toLowerCase_def)

lemma isSenderAllowed_ci:
  "toLowerCase em = toLowerCase em' \<Longrightarrow> toLowerCase nm = toLowerCase nm'
   \<Longrightarrow> isSenderAllowed sid em nm al = isSenderAllowed sid em' nm' al"
proof -
  assume e: "toLowerCase em = toLowerCase em'" and n: "toLowerCase nm = toLowerCase nm'"
  have 1: "normalizeAllowEntry em = normalizeAllowEntry em'"
    using e by (rule normalizeAllowEntry_ci)
  have 2: "normalizeAllowEntry nm = normalizeAllowEntry nm'"
    using n by (rule normalizeAllowEntry_ci)
  have 3: "(em = []) = (em' = [])" using e toLowerCase_Nil by metis
  have 4: "(nm = []) = (nm' = [])" using n toLowerCase_Nil by metis
  show ?thesis
    by (simp add: isSenderAllowed_def 1 2 3 4)
qed

lemma isSenderAllowed_iff:
  "isSenderAllowed sid em nm al \<longleftrightarrow>
     al \<noteq> [] \<and>
     (''*'' \<in> set al
      \<or> normalizeAllowEntry sid \<in> set al
      \<or> (em \<noteq> [] \<and> normalizeAllowEntry em \<noteq> [] \<and> normalizeAllowEntry em \<in> set al)
      \<or> (nm \<noteq> [] \<and> normalizeAllowEntry nm \<noteq> [] \<and> normalizeAllowEntry nm \<in> set al))"
  by (auto simp: isSenderAllowed_def Let_def list_ex_iff)

section \<open>Properties of sending\<close>

lemmas send_eval = sendZulipMessage_def attachMedia_def missing_def createZulipClient_def
  normalizeServerUrl_def parseZulipTarget_def fallbackContent_def isHttpUrl_def appendLine_def
  String_of_def decimal.simps digit_def Let_def

lemma parse_blank: "trim to = [] \<Longrightarrow> parseZulipTarget to = Inl TargetRequired"
  by (simp add: parseZulipTarget_def)

lemma attachMedia_messages:
  "filter isMessage (snd (attachMedia e opts c log)) = filter isMessage log"
  by (auto simp: attachMedia_def isMessage_def Let_def split: option.splits)

lemma attachMedia_log:
  "snd (attachMedia e opts c log) = log \<or> (\<exists>n. snd (attachMedia e opts c log) = log @ [Upload n])"
  by (auto simp: attachMedia_def Let_def split: option.splits)

lemma attachMedia_empty:
  "\<not> mediaAttached e opts \<Longrightarrow> \<not> mediaUrlIsHttp opts \<Longrightarrow> fst (attachMedia e opts [] log) = []"
  by (auto simp: attachMedia_def mediaAttached_def mediaUrlIsHttp_def fallbackContent_def Let_def
      split: option.splits)

text \<open>
  C10, as the claim states it, fails: with an empty text and the media URL
  \<open>https://example.org/a.png\<close> whose media does not load, no attachment is resolved,
  and yet the call returns a message id and a message has gone to the transport, with
  the URL as its content (the fallback of the \<open>catch\<close> block).
\<close>

theorem send_empty_text_counterexample:
  "trim '''' = []
   \<and> \<not> mediaAttached send_env0 \<lparr>mediaUrl = Some ''https://example.org/a.png''\<rparr>
   \<and> sendZulipMessage send_env0 ''dm:42'' '''' \<lparr>mediaUrl = Some ''https://example.org/a.png''\<rparr> [] =
       (Inr ''1'', [Message \<lparr>ttype = TDirect, tto = ''42'', ttopic = None\<rparr>
                      ''https://example.org/a.png''])"
  by (simp add: send_env0_def mediaAttached_def send_eval str_eval)

text \<open>
  C10, amended. For every call of \<open>sendZulipMessage\<close> whose target is empty or white
  space only, or whose text is empty after trimming while no media attachment is resolved
  and the media URL, if there is one, is not an http(s) URL: the call raises an error and
  no message request is made. The requests to the transport are as before the call, but
  for the one file upload that failed, if the media had loaded; for an empty target they
  are as before.
\<close>

theorem send_rejects:
  assumes "trim to = [] \<or> (trim text = [] \<and> \<not> mediaAttached e opts \<and> \<not> mediaUrlIsHttp opts)"
  shows "(\<exists>err. fst (sendZulipMessage e to text opts log) = Inl err)
    \<and> filter isMessage (snd (sendZulipMessage e to text opts log)) = filter isMessage log
    \<and> (snd (sendZulipMessage e to text opts log) = log
        \<or> (\<exists>n. snd (sendZulipMessage e to text opts log) = log @ [Upload n]))
    \<and> (if trim to = [] then snd (sendZulipMessage e to text opts log) = log else True)"
proof -
  obtain c l where cl: "attachMedia e opts (trim text) log = (c, l)"
    by (cases "attachMedia e opts (trim text) log")
  from attachMedia_messages [of e opts "trim text" log] cl
  have m: "filter isMessage l = filter isMessage log" by simp
  from attachMedia_log [of e opts "trim text" log] cl
  have u: "l = log \<or> (\<exists>n. l = log @ [Upload n])" by simp
  show ?thesis
  proof (cases "trim to = []")
    case True
    then show ?thesis
      by (auto simp: sendZulipMessage_def Let_def parse_blank split: sum.splits)
  next
    case False
    with assms have t: "trim text = []" and "\<not> mediaAttached e opts" "\<not> mediaUrlIsHttp opts"
      by auto
    then have "c = []"
      using attachMedia_empty [of e opts log] cl by simp
    with m u cl False show ?thesis
      by (auto simp: sendZulipMessage_def Let_def split: sum.splits)
  qed
qed

theorem send_rejects_witness:
  "(\<exists>err. fst (sendZulipMessage send_env0 ''dm:42'' ''  '' \<lparr>mediaUrl = Some ''file:///a.png''\<rparr> [])
           = Inl err)
   \<and> snd (sendZulipMessage send_env0 ''dm:42'' ''  '' \<lparr>mediaUrl = Some ''file:///a.png''\<rparr> []) = []"
proof -
  have h: "trim ''dm:42'' = [] \<or>
      (trim ''  '' = [] \<and> \<not> mediaAttached send_env0 \<lparr>mediaUrl = Some ''file:///a.png''\<rparr>
       \<and> \<not> mediaUrlIsHttp \<lparr>mediaUrl = Some ''file:///a.png''\<rparr>)"
    by (simp add: send_env0_def mediaAttached_def mediaUrlIsHttp_def isHttpUrl_def str_eval)
  have "snd (sendZulipMessage send_env0 ''dm:42'' ''  '' \<lparr>mediaUrl = Some ''file:///a.png''\<rparr> []) = []"
    by (simp add: send_env0_def send_eval str_eval)
  with send_rejects [OF h, of "[]"] show ?thesis by simp
qed

section \<open>Properties of the policy gates\<close>

lemmas world_eval = env0_def world0_def cfg_pairing_def cfg_auto_def cfg_open_def dm_alice_def
  dm_bob_def stream_carol_def dm_mention_def stream_mention_def stream_ask_def send_env0_def

lemmas policy_eval = has_def dmPolicy_def configAllowFrom_def autoReplyStreams_def
  getEffectiveAllowFrom_def normalizeAllowList_def normalizeAllowEntry_def stripAllowPrefix_def
  uniq_def isSenderAllowed_def inAutoReplyStream_def resolveStreamInfo_def wasBotMentioned_def
  mentionOf_def stripMention_def dedupeKey_def String_of_def decimal.simps digit_def

lemma getEffectiveAllowFrom_recentIds:
  "getEffectiveAllowFrom cfg (w\<lparr>recentIds := r\<rparr>) = getEffectiveAllowFrom cfg w"
  by (simp add: getEffectiveAllowFrom_def)

lemma streamGate_recentIds: "streamGate e cfg msg (w\<lparr>recentIds := r\<rparr>) = streamGate e cfg msg w"
  by (simp add: streamGate_def getEffectiveAllowFrom_recentIds)

lemma buildContext_cong:
  "allowFromStore w' = allowFromStore w \<Longrightarrow> buildContext cfg msg w' b = buildContext cfg msg w b"
  by (simp add: buildContext_def getEffectiveAllowFrom_def)

lemma contextStage_cong:
  "allowFromStore w' = allowFromStore w \<Longrightarrow> contextStage cfg msg w' = contextStage cfg msg w"
  by (simp add: contextStage_def buildContext_def getEffectiveAllowFrom_def Let_def)

lemma contextStage_recentIds: "contextStage cfg msg (w\<lparr>recentIds := r\<rparr>) = contextStage cfg msg w"
  by (simp add: contextStage_def buildContext_def getEffectiveAllowFrom_def Let_def)

lemma contextStage_body:
  "contextStage cfg msg w =
     (if stripMention (trim (content msg)) (botName cfg) = [] then EmptyBody
      else Dispatch (buildContext cfg msg w (stripMention (trim (content msg)) (botName cfg))))"
  by (simp add: contextStage_def Let_def)

lemma dispatched_contextStage:
  "dispatched (contextStage cfg msg w) = (stripMention (trim (content msg)) (botName cfg) \<noteq> [])"
  by (simp add: contextStage_body dispatched_def)

lemma passes_dedup: "\<not> has r k \<Longrightarrow> \<not> fst (dedupeCheck k t r)"
  by (simp add: dedupeCheck_first)

lemma dedupe_fresh:
  "\<not> has (recentIds w) k \<Longrightarrow> dedupeCheck k t (recentIds w) = (False, cleanup t (recentIds w) @ [(k, t)])"
  by (rule dedupeCheck_first)

text \<open>
  A message that is not the bot's own and that the dedup check does not know: the check
  updates the cache, and the gate of its kind decides.
\<close>

lemma handleMessage_stream_passed:
  assumes "msg_type msg = Stream" and "sender_id msg \<noteq> botUserId cfg"
    and "\<not> fst (dedupeCheck (dedupeKey (cfg_accountId cfg) (msg_id msg)) (clock e) (recentIds w))"
  shows "handleMessage e cfg msg w =
     (case streamGate e cfg msg w of Some out \<Rightarrow> out | None \<Rightarrow> contextStage cfg msg w,
      w\<lparr>recentIds := snd (dedupeCheck (dedupeKey (cfg_accountId cfg) (msg_id msg)) (clock e)
                              (recentIds w))\<rparr>)"
  using assms
  by (simp add: handleMessage_def case_prod_beta Let_def streamGate_recentIds
      contextStage_recentIds split: option.splits)

lemma handleMessage_stream:
  assumes "msg_type msg = Stream" and "sender_id msg \<noteq> botUserId cfg"
    and "\<not> has (recentIds w) (dedupeKey (cfg_accountId cfg) (msg_id msg))"
  shows "handleMessage e cfg msg w =
     (case streamGate e cfg msg w of Some out \<Rightarrow> out | None \<Rightarrow> contextStage cfg msg w,
      w\<lparr>recentIds := cleanup (clock e) (recentIds w)
                        @ [(dedupeKey (cfg_accountId cfg) (msg_id msg), clock e)]\<rparr>)"
  using handleMessage_stream_passed [OF assms(1,2) passes_dedup [OF assms(3)], of e]
  by (simp add: dedupeCheck_first [OF assms(3)])

lemma requestPairing_allowFromStore: "allowFromStore (requestPairing e sid w) = allowFromStore w"
  by (simp add: requestPairing_def Let_def split: prod.splits)

lemma requestPairing_recentIds: "recentIds (requestPairing e sid w) = recentIds w"
  by (simp add: requestPairing_def Let_def split: prod.splits)

lemma requestPairing_recentIds_update:
  "requestPairing e sid (w\<lparr>recentIds := r\<rparr>) = (requestPairing e sid w)\<lparr>recentIds := r\<rparr>"
  by (simp add: requestPairing_def Let_def split: prod.splits)

lemma dmGate_recentIds:
  "dmGate e cfg msg (w\<lparr>recentIds := r\<rparr>) =
     (fst (dmGate e cfg msg w), (snd (dmGate e cfg msg w))\<lparr>recentIds := r\<rparr>)"
  by (simp add: dmGate_def Let_def getEffectiveAllowFrom_recentIds requestPairing_recentIds_update)

lemma dmGate_None: "fst (dmGate e cfg msg w) = None \<Longrightarrow> snd (dmGate e cfg msg w) = w"
  by (auto simp: dmGate_def Let_def split: if_splits)

lemma handleMessage_dm_passed:
  assumes "msg_type msg = Private" and "sender_id msg \<noteq> botUserId cfg"
    and "\<not> fst (dedupeCheck (dedupeKey (cfg_accountId cfg) (msg_id msg)) (clock e) (recentIds w))"
  shows "handleMessage e cfg msg w =
     (case fst (dmGate e cfg msg w) of Some out \<Rightarrow> out | None \<Rightarrow> contextStage cfg msg w,
      (snd (dmGate e cfg msg w))\<lparr>recentIds :=
          snd (dedupeCheck (dedupeKey (cfg_accountId cfg) (msg_id msg)) (clock e) (recentIds w))\<rparr>)"
proof (cases "fst (dmGate e cfg msg w)")
  case None
  then have "snd (dmGate e cfg msg w) = w" by (rule dmGate_None)
  with None assms show ?thesis
    by (simp add: handleMessage_def case_prod_beta Let_def dmGate_recentIds contextStage_recentIds)
next
  case (Some out)
  with assms show ?thesis
    by (simp add: handleMessage_def case_prod_beta Let_def dmGate_recentIds)
qed

lemma handleMessage_dm:
  assumes "msg_type msg = Private" and "sender_id msg \<noteq> botUserId cfg"
    and "\<not> has (recentIds w) (dedupeKey (cfg_accountId cfg) (msg_id msg))"
  shows "handleMessage e cfg msg w =
     (case fst (dmGate e cfg msg w) of Some out \<Rightarrow> out | None \<Rightarrow> contextStage cfg msg w,
      (snd (dmGate e cfg msg w))\<lparr>recentIds := cleanup (clock e) (recentIds w)
                        @ [(dedupeKey (cfg_accountId cfg) (msg_id msg), clock e)]\<rparr>)"
  using handleMessage_dm_passed [OF assms(1,2) passes_dedup [OF assms(3)], of e]
  by (simp add: dedupeCheck_first [OF assms(3)])

lemma set_uniq: "set (uniq xs) = set xs"
  by (simp add: uniq_def)

lemma uniq_Nil: "uniq xs = [] \<longleftrightarrow> xs = []"
  by (metis set_uniq set_empty)

lemma set_normalizeAllowList:
  "set (normalizeAllowList es) = (\<lambda>x. normalizeAllowEntry (String_entry x)) ` set es - {[]}"
  by (auto simp: normalizeAllowList_def set_uniq)

lemma set_getEffectiveAllowFrom:
  "set (getEffectiveAllowFrom cfg w) =
     (\<lambda>x. normalizeAllowEntry (String_entry x))
       ` (set (case cfg_allowFrom cfg of None \<Rightarrow> [] | Some es \<Rightarrow> es) \<union> set (allowFromStore w)) - {[]}"
  by (auto simp: getEffectiveAllowFrom_def configAllowFrom_def set_uniq set_normalizeAllowList)

lemma dmGate_cases:
  "dmGate e cfg msg w =
     (case dmPolicy cfg of
        PolicyDisabled \<Rightarrow> (Some DmDisabled, w)
      | PolicyOpen \<Rightarrow> (None, w)
      | PolicyPairing \<Rightarrow>
          if isSenderAllowed (String_of (sender_id msg)) (sender_email msg) (sender_full_name msg)
               (getEffectiveAllowFrom cfg w)
          then (None, w)
          else (Some DmDenied, requestPairing e (String_of (sender_id msg)) w))"
  by (simp add: dmGate_def Let_def split: dm_policy.splits)

text \<open>
  C1, as the claim states it, fails: under the policy \<open>open\<close>, a direct message that
  passes the self-message check and the dedup check, and whose text is nothing but a
  mention of the bot, is not processed. Its body is empty once the mention is stripped,
  and \<open>handleMessage\<close> returns at \<^verbatim>\<open>if (!bodyText) return;\<close> before any context is
  built.
\<close>

theorem dm_open_counterexample:
  "dmPolicy cfg_open = PolicyOpen
   \<and> msg_type dm_mention = Private
   \<and> sender_id dm_mention \<noteq> botUserId cfg_open
   \<and> \<not> fst (dedupeCheck (dedupeKey (cfg_accountId cfg_open) (msg_id dm_mention)) (clock env0)
              (recentIds world0))
   \<and> fst (handleMessage env0 cfg_open dm_mention world0) = EmptyBody
   \<and> \<not> dispatched (fst (handleMessage env0 cfg_open dm_mention world0))"
proof -
  have p: "dmPolicy cfg_open = PolicyOpen"
    by (simp add: cfg_open_def dmPolicy_def)
  have 1: "msg_type dm_mention = Private" by (simp add: dm_mention_def)
  have 2: "sender_id dm_mention \<noteq> botUserId cfg_open" by (simp add: world_eval)
  have 3: "\<not> fst (dedupeCheck (dedupeKey (cfg_accountId cfg_open) (msg_id dm_mention)) (clock env0)
              (recentIds world0))"
    by (rule passes_dedup) (simp add: world0_def has_def)
  have b: "stripMention (trim (content dm_mention)) (botName cfg_open) = []"
    by (simp add: world_eval policy_eval str_eval)
  have "fst (handleMessage env0 cfg_open dm_mention world0) = EmptyBody"
    by (simp add: handleMessage_dm_passed [OF 1 2 3] dmGate_cases p contextStage_body b)
  then show ?thesis using p 1 2 3 by (simp add: dispatched_def)
qed

text \<open>
  C1, amended. For every direct message that passes the self-message check and the dedup
  check, the decision of the DM policy is: under \<open>disabled\<close> the message is dropped and
  nothing is sent or stored; under \<open>open\<close> it always passes; under \<open>pairing\<close> it
  passes if and only if the sender matches the effective allow-list, and otherwise it
  ends at the \<open>return\<close> after the pairing block, not as a conversational turn. A message
  that passes is processed, that is handed to reply generation, if and only if its body,
  the trimmed content with the mentions of the bot stripped, is not empty; with an empty
  body it is dropped. A message that passes sends nothing and stores no pairing request on
  the way. The context of a processed message
  holds that body, the target \<open>dm:\<close> with the sender's id and the chat type
  \<open>direct\<close>. The sender matches a non-empty list when the list holds \<open>*\<close> or the
  normalized id, address or display name of the sender; the match does not depend on the
  case of the address and the name; and the effective allow-list is the set of the
  normalized entries of the configured and the stored list, the empty ones left out.
\<close>

theorem dm_policy_decision:
  assumes "msg_type msg = Private" and "sender_id msg \<noteq> botUserId cfg"
    and "\<not> fst (dedupeCheck (dedupeKey (cfg_accountId cfg) (msg_id msg)) (clock e) (recentIds w))"
  shows "(dmPolicy cfg = PolicyDisabled \<longrightarrow>
            fst (handleMessage e cfg msg w) = DmDisabled
            \<and> transport (snd (handleMessage e cfg msg w)) = transport w
            \<and> pairingRequests (snd (handleMessage e cfg msg w)) = pairingRequests w)
    \<and> (dmPolicy cfg = PolicyOpen \<longrightarrow>
            fst (handleMessage e cfg msg w) =
              (if stripMention (trim (content msg)) (botName cfg) = [] then EmptyBody
               else Dispatch (buildContext cfg msg w
                      (stripMention (trim (content msg)) (botName cfg))))
            \<and> transport (snd (handleMessage e cfg msg w)) = transport w
            \<and> pairingRequests (snd (handleMessage e cfg msg w)) = pairingRequests w)
    \<and> (dmPolicy cfg = PolicyPairing \<longrightarrow>
            fst (handleMessage e cfg msg w) =
              (if isSenderAllowed (String_of (sender_id msg)) (sender_email msg)
                    (sender_full_name msg) (getEffectiveAllowFrom cfg w)
               then (if stripMention (trim (content msg)) (botName cfg) = [] then EmptyBody
                     else Dispatch (buildContext cfg msg w
                            (stripMention (trim (content msg)) (botName cfg))))
               else DmDenied)
            \<and> (if isSenderAllowed (String_of (sender_id msg)) (sender_email msg)
                      (sender_full_name msg) (getEffectiveAllowFrom cfg w)
                then transport (snd (handleMessage e cfg msg w)) = transport w
                     \<and> pairingRequests (snd (handleMessage e cfg msg w)) = pairingRequests w
                else True))
    \<and> dispatched (fst (handleMessage e cfg msg w)) =
        (stripMention (trim (content msg)) (botName cfg) \<noteq> []
         \<and> (dmPolicy cfg = PolicyOpen
            \<or> (dmPolicy cfg = PolicyPairing
               \<and> isSenderAllowed (String_of (sender_id msg)) (sender_email msg)
                    (sender_full_name msg) (getEffectiveAllowFrom cfg w))))
    \<and> BodyForAgent (buildContext cfg msg w body) = body
    \<and> To (buildContext cfg msg w body) = ''dm:'' @ String_of (sender_id msg)
    \<and> ChatType (buildContext cfg msg w body) = Direct
    \<and> (isSenderAllowed sid em nm al \<longleftrightarrow>
          al \<noteq> [] \<and>
          (''*'' \<in> set al
           \<or> normalizeAllowEntry sid \<in> set al
           \<or> (em \<noteq> [] \<and> normalizeAllowEntry em \<noteq> [] \<and> normalizeAllowEntry em \<in> set al)
           \<or> (nm \<noteq> [] \<and> normalizeAllowEntry nm \<noteq> [] \<and> normalizeAllowEntry nm \<in> set al)))
    \<and> isSenderAllowed sid (toLowerCase em) (toLowerCase nm) al = isSenderAllowed sid em nm al
    \<and> set (getEffectiveAllowFrom cfg w) =
         (\<lambda>x. normalizeAllowEntry (String_entry x))
           ` (set (case cfg_allowFrom cfg of None \<Rightarrow> [] | Some es \<Rightarrow> es) \<union> set (allowFromStore w))
         - {[]}"
proof -
  let ?H = "handleMessage e cfg msg w"
  let ?b = "stripMention (trim (content msg)) (botName cfg)"
  let ?allowed = "isSenderAllowed (String_of (sender_id msg)) (sender_email msg)
                    (sender_full_name msg) (getEffectiveAllowFrom cfg w)"
  note hm = handleMessage_dm_passed [OF assms]
  have d: "dmPolicy cfg = PolicyDisabled \<longrightarrow>
            fst ?H = DmDisabled \<and> transport (snd ?H) = transport w
            \<and> pairingRequests (snd ?H) = pairingRequests w"
    by (simp add: hm dmGate_cases)
  have o: "dmPolicy cfg = PolicyOpen \<longrightarrow>
            fst ?H = (if ?b = [] then EmptyBody else Dispatch (buildContext cfg msg w ?b))
            \<and> transport (snd ?H) = transport w
            \<and> pairingRequests (snd ?H) = pairingRequests w"
    by (simp add: hm dmGate_cases contextStage_body)
  have p: "dmPolicy cfg = PolicyPairing \<longrightarrow>
            fst ?H = (if ?allowed
                      then (if ?b = [] then EmptyBody else Dispatch (buildContext cfg msg w ?b))
                      else DmDenied)
            \<and> (if ?allowed
                then transport (snd ?H) = transport w
                     \<and> pairingRequests (snd ?H) = pairingRequests w
                else True)"
    by (simp add: hm dmGate_cases contextStage_body)
  have q: "dispatched (fst ?H) =
        (?b \<noteq> [] \<and> (dmPolicy cfg = PolicyOpen \<or> (dmPolicy cfg = PolicyPairing \<and> ?allowed)))"
  proof (cases "dmPolicy cfg")
    case PolicyOpen
    with o show ?thesis by (simp add: dispatched_def)
  next
    case PolicyPairing
    with p show ?thesis by (simp add: dispatched_def)
  next
    case PolicyDisabled
    with d show ?thesis by (simp add: dispatched_def)
  qed
  have c: "BodyForAgent (buildContext cfg msg w body) = body
    \<and> To (buildContext cfg msg w body) = ''dm:'' @ String_of (sender_id msg)
    \<and> ChatType (buildContext cfg msg w body) = Direct"
    using assms(1) by (simp add: buildContext_def replyTarget_def Let_def)
  have ci: "isSenderAllowed sid (toLowerCase em) (toLowerCase nm) al = isSenderAllowed sid em nm al"
    by (rule isSenderAllowed_ci) (simp_all add: toLowerCase_idem)
  show ?thesis
    using d o p q c ci isSenderAllowed_iff [of sid em nm al] set_getEffectiveAllowFrom [of cfg w]
    by blast
qed

lemma streamGate_cases:
  "streamGate e cfg msg w =
     (if inAutoReplyStream cfg msg
      then (if getEffectiveAllowFrom cfg w = []
               \<or> isSenderAllowed (String_of (sender_id msg)) (sender_email msg)
                    (sender_full_name msg) (getEffectiveAllowFrom cfg w)
            then None else Some StreamSenderDenied)
      else (if wasBotMentioned (trim (content msg)) (botName cfg)
               \<or> matchesMentionPatterns e (trim (content msg))
            then None else Some NotMentioned))"
  by (simp add: streamGate_def Let_def)

lemma inAutoReplyStream_iff:
  "msg_type msg = Stream \<Longrightarrow>
   inAutoReplyStream cfg msg =
     (\<exists>s \<in> set (autoReplyStreams cfg).
        toLowerCase s = toLowerCase (case display_recipient msg of
                                       RecipientName n \<Rightarrow> n | RecipientUsers us \<Rightarrow> []))"
  by (simp add: inAutoReplyStream_def resolveStreamInfo_def list_ex_iff)

lemma toLowerCase_length: "toLowerCase a = toLowerCase b \<Longrightarrow> length a = length b"
  unfolding toLowerCase_def by (rule map_eq_imp_length_eq)

text \<open>
  The test of the expression succeeds exactly on the texts that hold the pattern somewhere,
  up to case.
\<close>

lemma testCI_iff:
  "testCI pat s \<longleftrightarrow>
     pat \<noteq> [] \<and> (\<exists>pre m post. s = pre @ m @ post \<and> toLowerCase m = toLowerCase pat)"
proof (induction s)
  case Nil
  show ?case by (auto simp: toLowerCase_def)
next
  case (Cons c cs)
  show ?case
  proof
    assume "testCI pat (c # cs)"
    then consider "pat \<noteq> []" "startsWithCI (c # cs) pat" | "testCI pat cs" by auto
    then show "pat \<noteq> [] \<and> (\<exists>pre m post. c # cs = pre @ m @ post
                               \<and> toLowerCase m = toLowerCase pat)"
    proof cases
      case 1
      have "c # cs = [] @ take (length pat) (c # cs) @ drop (length pat) (c # cs)" by simp
      moreover have "toLowerCase (take (length pat) (c # cs)) = toLowerCase pat"
        using 1(2) by (simp add: startsWithCI_def)
      ultimately show ?thesis using 1(1) by blast
    next
      case 2
      then obtain pre m post where "pat \<noteq> []" "cs = pre @ m @ post"
          "toLowerCase m = toLowerCase pat"
        using Cons.IH by blast
      then have "c # cs = (c # pre) @ m @ post" by simp
      then show ?thesis using \<open>pat \<noteq> []\<close> \<open>toLowerCase m = toLowerCase pat\<close> by blast
    qed
  next
    assume "pat \<noteq> [] \<and> (\<exists>pre m post. c # cs = pre @ m @ post
                          \<and> toLowerCase m = toLowerCase pat)"
    then obtain pre m post where p: "pat \<noteq> []" and s: "c # cs = pre @ m @ post"
        and m: "toLowerCase m = toLowerCase pat"
      by blast
    show "testCI pat (c # cs)"
    proof (cases pre)
      case Nil
      have "length m = length pat" using m by (rule toLowerCase_length)
      then have "take (length pat) (c # cs) = m" using s Nil by simp
      then show ?thesis using p m by (simp add: startsWithCI_def)
    next
      case (Cons d pre')
      then have "cs = pre' @ m @ post" using s by simp
      then have "testCI pat cs" using Cons.IH p m by blast
      then show ?thesis by simp
    qed
  qed
qed

lemma wasBotMentioned_iff:
  "wasBotMentioned s bn \<longleftrightarrow>
     bn \<noteq> [] \<and> (\<exists>pre m post. s = pre @ m @ post
                  \<and> toLowerCase m = toLowerCase (''@**'' @ bn @ ''**''))"
  by (simp add: wasBotMentioned_def testCI_iff mentionOf_def)

text \<open>
  C2, as the claim states it, fails: a stream message outside the auto-reply streams that
  passes the self-message check and the dedup check, and whose text is nothing but a
  mention of the bot by its display name, is not processed. Its body is empty once the
  mention is stripped, and \<open>handleMessage\<close> returns at \<^verbatim>\<open>if (!bodyText) return;\<close>.
\<close>

theorem stream_mention_counterexample:
  "msg_type stream_mention = Stream
   \<and> sender_id stream_mention \<noteq> botUserId cfg_auto
   \<and> \<not> fst (dedupeCheck (dedupeKey (cfg_accountId cfg_auto) (msg_id stream_mention)) (clock env0)
              (recentIds world0))
   \<and> \<not> inAutoReplyStream cfg_auto stream_mention
   \<and> wasBotMentioned (trim (content stream_mention)) (botName cfg_auto)
   \<and> fst (handleMessage env0 cfg_auto stream_mention world0) = EmptyBody
   \<and> \<not> dispatched (fst (handleMessage env0 cfg_auto stream_mention world0))"
proof -
  have 1: "msg_type stream_mention = Stream" by (simp add: stream_mention_def)
  have 2: "sender_id stream_mention \<noteq> botUserId cfg_auto" by (simp add: world_eval)
  have 3: "\<not> fst (dedupeCheck (dedupeKey (cfg_accountId cfg_auto) (msg_id stream_mention))
                  (clock env0) (recentIds world0))"
    by (rule passes_dedup) (simp add: world0_def has_def)
  have a: "\<not> inAutoReplyStream cfg_auto stream_mention"
    by (simp add: world_eval policy_eval str_eval)
  have m: "wasBotMentioned (trim (content stream_mention)) (botName cfg_auto)"
    by (simp add: world_eval policy_eval str_eval)
  have b: "stripMention (trim (content stream_mention)) (botName cfg_auto) = []"
    by (simp add: world_eval policy_eval str_eval)
  have "fst (handleMessage env0 cfg_auto stream_mention world0) = EmptyBody"
    by (simp add: handleMessage_stream_passed [OF 1 2 3] streamGate_cases a m contextStage_body b)
  then show ?thesis using 1 2 3 a m by (simp add: dispatched_def)
qed

text \<open>
  C2, amended. For every stream message that passes the self-message check and the dedup
  check: when its channel is not among the auto-reply streams, it passes if and only if
  the bot is mentioned by its display name or a configured mention pattern matches, and
  otherwise it is dropped; when its channel is among them, no mention is asked for, and
  it passes if and only if the effective allow-list is empty or the sender is in it, and
  otherwise it is dropped. A message that passes is processed, that is handed to reply
  generation, if and only if its body, the trimmed content with the mentions of the bot
  stripped, is not empty; with an empty body it is dropped. No stream message sends
  anything or stores a pairing request on the way. The context of a processed message
  holds that body, the target \<open>stream:\<close> with the name of the channel and the topic,
  the chat type \<open>channel\<close> and the mention flag. The channel is among the auto-reply
  streams when its name equals one of them up to case; and the bot is mentioned by its
  display name when the name is not empty and the text holds \<open>@**name**\<close> somewhere, up
  to case.
\<close>

theorem stream_policy_decision:
  assumes "msg_type msg = Stream" and "sender_id msg \<noteq> botUserId cfg"
    and "\<not> fst (dedupeCheck (dedupeKey (cfg_accountId cfg) (msg_id msg)) (clock e) (recentIds w))"
  shows "(\<not> inAutoReplyStream cfg msg \<longrightarrow>
            fst (handleMessage e cfg msg w) =
              (if wasBotMentioned (trim (content msg)) (botName cfg)
                  \<or> matchesMentionPatterns e (trim (content msg))
               then (if stripMention (trim (content msg)) (botName cfg) = [] then EmptyBody
                     else Dispatch (buildContext cfg msg w
                            (stripMention (trim (content msg)) (botName cfg))))
               else NotMentioned))
    \<and> (inAutoReplyStream cfg msg \<longrightarrow>
            fst (handleMessage e cfg msg w) =
              (if getEffectiveAllowFrom cfg w = []
                  \<or> isSenderAllowed (String_of (sender_id msg)) (sender_email msg)
                       (sender_full_name msg) (getEffectiveAllowFrom cfg w)
               then (if stripMention (trim (content msg)) (botName cfg) = [] then EmptyBody
                     else Dispatch (buildContext cfg msg w
                            (stripMention (trim (content msg)) (botName cfg))))
               else StreamSenderDenied))
    \<and> dispatched (fst (handleMessage e cfg msg w)) =
        (stripMention (trim (content msg)) (botName cfg) \<noteq> []
         \<and> (if inAutoReplyStream cfg msg
            then getEffectiveAllowFrom cfg w = []
                 \<or> isSenderAllowed (String_of (sender_id msg)) (sender_email msg)
                      (sender_full_name msg) (getEffectiveAllowFrom cfg w)
            else wasBotMentioned (trim (content msg)) (botName cfg)
                 \<or> matchesMentionPatterns e (trim (content msg))))
    \<and> transport (snd (handleMessage e cfg msg w)) = transport w
    \<and> pairingRequests (snd (handleMessage e cfg msg w)) = pairingRequests w
    \<and> BodyForAgent (buildContext cfg msg w body) = body
    \<and> To (buildContext cfg msg w body) =
        ''stream:'' @ (case display_recipient msg of RecipientName n \<Rightarrow> n | RecipientUsers us \<Rightarrow> [])
        @ '':'' @ (case subject msg of None \<Rightarrow> ''(no topic)'' | Some t \<Rightarrow> t)
    \<and> ChatType (buildContext cfg msg w body) = Channel
    \<and> WasMentioned (buildContext cfg msg w body) = Some True
    \<and> inAutoReplyStream cfg msg =
        (\<exists>s \<in> set (autoReplyStreams cfg).
           toLowerCase s = toLowerCase (case display_recipient msg of
                                          RecipientName n \<Rightarrow> n | RecipientUsers us \<Rightarrow> []))
    \<and> (wasBotMentioned s bn \<longleftrightarrow>
         bn \<noteq> [] \<and> (\<exists>pre m post. s = pre @ m @ post
                      \<and> toLowerCase m = toLowerCase (''@**'' @ bn @ ''**'')))"
proof -
  let ?H = "handleMessage e cfg msg w"
  let ?b = "stripMention (trim (content msg)) (botName cfg)"
  let ?ctx = "if ?b = [] then EmptyBody else Dispatch (buildContext cfg msg w ?b)"
  let ?allowed = "getEffectiveAllowFrom cfg w = []
                  \<or> isSenderAllowed (String_of (sender_id msg)) (sender_email msg)
                       (sender_full_name msg) (getEffectiveAllowFrom cfg w)"
  let ?mentioned = "wasBotMentioned (trim (content msg)) (botName cfg)
                    \<or> matchesMentionPatterns e (trim (content msg))"
  note hm = handleMessage_stream_passed [OF assms]
  have a: "\<not> inAutoReplyStream cfg msg \<longrightarrow>
            fst ?H = (if ?mentioned then ?ctx else NotMentioned)"
    by (simp add: hm streamGate_cases contextStage_body)
  have b: "inAutoReplyStream cfg msg \<longrightarrow>
            fst ?H = (if ?allowed then ?ctx else StreamSenderDenied)"
    by (simp add: hm streamGate_cases contextStage_body)
  have q: "dispatched (fst ?H) =
        (?b \<noteq> [] \<and> (if inAutoReplyStream cfg msg then ?allowed else ?mentioned))"
  proof (cases "inAutoReplyStream cfg msg")
    case True
    with b have "fst ?H = (if ?allowed then ?ctx else StreamSenderDenied)" by blast
    then show ?thesis using True by (simp add: dispatched_def)
  next
    case False
    with a have "fst ?H = (if ?mentioned then ?ctx else NotMentioned)" by blast
    then show ?thesis using False by (simp add: dispatched_def)
  qed
  have c: "transport (snd ?H) = transport w \<and> pairingRequests (snd ?H) = pairingRequests w"
    by (simp add: hm)
  have x: "BodyForAgent (buildContext cfg msg w body) = body
    \<and> To (buildContext cfg msg w body) =
        ''stream:'' @ (case display_recipient msg of RecipientName n \<Rightarrow> n | RecipientUsers us \<Rightarrow> [])
        @ '':'' @ (case subject msg of None \<Rightarrow> ''(no topic)'' | Some t \<Rightarrow> t)
    \<and> ChatType (buildContext cfg msg w body) = Channel
    \<and> WasMentioned (buildContext cfg msg w body) = Some True"
    using assms(1) by (simp add: buildContext_def replyTarget_def resolveStreamInfo_def Let_def)
  show ?thesis
    using a b q c x inAutoReplyStream_iff [OF assms(1), of cfg] wasBotMentioned_iff [of s bn]
    by blast
qed

lemma msg_type_cases: "msg_type msg = Private \<or> msg_type msg = Stream"
  by (cases "msg_type msg") simp_all

lemma streamGate_not_Dispatch: "streamGate e cfg msg w \<noteq> Some (Dispatch ctx)"
  by (simp add: streamGate_cases)

lemma dmGate_not_Dispatch: "fst (dmGate e cfg msg w) \<noteq> Some (Dispatch ctx)"
  by (simp add: dmGate_cases split: dm_policy.splits)

lemma handleMessage_Dispatch:
  assumes "fst (handleMessage e cfg msg w) = Dispatch ctx"
  shows "ctx = buildContext cfg msg w (stripMention (trim (content msg)) (botName cfg))
    \<and> (msg_type msg = Stream \<longrightarrow> streamGate e cfg msg w = None)
    \<and> (msg_type msg = Private \<longrightarrow> fst (dmGate e cfg msg w) = None)"
proof -
  obtain seen r where dc:
    "dedupeCheck (dedupeKey (cfg_accountId cfg) (msg_id msg)) (clock e) (recentIds w) = (seen, r)"
    by (cases "dedupeCheck (dedupeKey (cfg_accountId cfg) (msg_id msg)) (clock e) (recentIds w)")
  from assms have nb: "sender_id msg \<noteq> botUserId cfg"
    by (auto simp: handleMessage_def)
  from assms nb dc have ns: "\<not> seen"
    by (auto simp: handleMessage_def)
  show ?thesis
  proof (cases "msg_type msg")
    case Stream
    with assms nb dc ns have g: "streamGate e cfg msg w = None"
      using streamGate_not_Dispatch [of e cfg msg w ctx]
      by (cases "streamGate e cfg msg w") (simp_all add: handleMessage_def streamGate_recentIds)
    with assms nb dc ns Stream have "contextStage cfg msg w = Dispatch ctx"
      by (simp add: handleMessage_def streamGate_recentIds contextStage_recentIds)
    then have "ctx = buildContext cfg msg w (stripMention (trim (content msg)) (botName cfg))"
      by (simp add: contextStage_def Let_def split: if_splits)
    with g Stream show ?thesis by simp
  next
    case Private
    with assms nb dc ns have g: "fst (dmGate e cfg msg w) = None"
      using dmGate_not_Dispatch [of e cfg msg w ctx]
      by (cases "fst (dmGate e cfg msg w)") (simp_all add: handleMessage_def dmGate_recentIds)
    then have "snd (dmGate e cfg msg w) = w" by (rule dmGate_None)
    with g assms nb dc ns Private have "contextStage cfg msg w = Dispatch ctx"
      by (simp add: handleMessage_def dmGate_recentIds contextStage_recentIds)
    then have "ctx = buildContext cfg msg w (stripMention (trim (content msg)) (botName cfg))"
      by (simp add: contextStage_def Let_def split: if_splits)
    with g Private show ?thesis by simp
  qed
qed

text \<open>
  C9. In the context handed to reply generation, the flag \<open>CommandAuthorized\<close> is true
  for every direct message (which got there past the DM policy), and for a stream message
  it is the answer of \<open>isSenderAllowed\<close> on the effective allow-list, the check that
  gates the auto-reply streams: a stream message that passed that gate with a non-empty
  allow-list has the flag set.
\<close>

theorem command_authorized:
  assumes "fst (handleMessage e cfg msg w) = Dispatch ctx"
  shows "CommandAuthorized ctx =
           (msg_type msg = Private
            \<or> isSenderAllowed (String_of (sender_id msg)) (sender_email msg) (sender_full_name msg)
                 (getEffectiveAllowFrom cfg w))
    \<and> (if msg_type msg = Private then CommandAuthorized ctx
        else CommandAuthorized ctx =
               isSenderAllowed (String_of (sender_id msg)) (sender_email msg)
                 (sender_full_name msg) (getEffectiveAllowFrom cfg w))
    \<and> (if msg_type msg = Stream \<and> inAutoReplyStream cfg msg \<and> getEffectiveAllowFrom cfg w \<noteq> []
        then CommandAuthorized ctx else True)"
proof -
  note d = handleMessage_Dispatch [OF assms]
  from d have c: "CommandAuthorized ctx =
           (msg_type msg = Private
            \<or> isSenderAllowed (String_of (sender_id msg)) (sender_email msg) (sender_full_name msg)
                 (getEffectiveAllowFrom cfg w))"
    by (simp add: buildContext_def Let_def)
  have g: "msg_type msg = Stream \<and> inAutoReplyStream cfg msg \<and> getEffectiveAllowFrom cfg w \<noteq> []
      \<longrightarrow> isSenderAllowed (String_of (sender_id msg)) (sender_email msg)
                 (sender_full_name msg) (getEffectiveAllowFrom cfg w)"
    using d by (auto simp: streamGate_cases split: if_splits)
  show ?thesis using c g by auto
qed

section \<open>The policy gates on the example inputs, and the pairing request\<close>

theorem dm_policy_decision_witness:
  "dmPolicy cfg_pairing = PolicyPairing
   \<and> fst (handleMessage env0 cfg_pairing dm_alice world0) =
       Dispatch (buildContext cfg_pairing dm_alice world0 ''hello'')
   \<and> dispatched (fst (handleMessage env0 cfg_pairing dm_alice world0))
   \<and> fst (handleMessage env0 cfg_pairing dm_bob world0) = DmDenied
   \<and> \<not> dispatched (fst (handleMessage env0 cfg_pairing dm_bob world0))
   \<and> fst (handleMessage env0 cfg_open dm_bob world0) =
       Dispatch (buildContext cfg_open dm_bob world0 ''hi'')
   \<and> To (buildContext cfg_open dm_bob world0 ''hi'') = ''dm:43''
   \<and> fst (handleMessage env0 (cfg_open\<lparr>cfg_dmPolicy := Some PolicyDisabled\<rparr>) dm_bob world0) =
       DmDisabled"
proof -
  let ?off = "cfg_open\<lparr>cfg_dmPolicy := Some PolicyDisabled\<rparr>"
  have p: "dmPolicy cfg_pairing = PolicyPairing" "dmPolicy cfg_open = PolicyOpen"
      "dmPolicy ?off = PolicyDisabled"
    by (simp_all add: cfg_pairing_def cfg_open_def dmPolicy_def)
  have a: "isSenderAllowed (String_of (sender_id dm_alice)) (sender_email dm_alice)
        (sender_full_name dm_alice) (getEffectiveAllowFrom cfg_pairing world0)"
    by (simp add: world_eval policy_eval str_eval)
  have b: "\<not> isSenderAllowed (String_of (sender_id dm_bob)) (sender_email dm_bob)
        (sender_full_name dm_bob) (getEffectiveAllowFrom cfg_pairing world0)"
    by (simp add: world_eval policy_eval str_eval)
  have 1: "msg_type dm_alice = Private" "msg_type dm_bob = Private"
    by (simp_all add: world_eval)
  have 2: "sender_id dm_alice \<noteq> botUserId cfg_pairing" "sender_id dm_bob \<noteq> botUserId cfg_pairing"
      "sender_id dm_bob \<noteq> botUserId cfg_open" "sender_id dm_bob \<noteq> botUserId ?off"
    by (simp_all add: world_eval)
  have 3: "\<not> fst (dedupeCheck (dedupeKey (cfg_accountId cfg_pairing) (msg_id dm_alice))
                  (clock env0) (recentIds world0))"
    "\<not> fst (dedupeCheck (dedupeKey (cfg_accountId cfg_pairing) (msg_id dm_bob))
             (clock env0) (recentIds world0))"
    "\<not> fst (dedupeCheck (dedupeKey (cfg_accountId cfg_open) (msg_id dm_bob))
             (clock env0) (recentIds world0))"
    "\<not> fst (dedupeCheck (dedupeKey (cfg_accountId ?off) (msg_id dm_bob))
             (clock env0) (recentIds world0))"
    by (rule passes_dedup, simp add: world0_def has_def)+
  have s: "stripMention (trim (content dm_alice)) (botName cfg_pairing) = ''hello''"
      "stripMention (trim (content dm_bob)) (botName cfg_open) = ''hi''"
    by (simp_all add: world_eval policy_eval str_eval)
  have t: "String_of (sender_id dm_bob) = ''43''"
    by (simp add: dm_bob_def String_of_def decimal.simps digit_def char_of_iff)
  note alice = dm_policy_decision [OF 1(1) 2(1) 3(1), where sid = "[]" and em = "[]"
        and nm = "[]" and al = "[]" and body = "[]"]
  note bob = dm_policy_decision [OF 1(2) 2(2) 3(2), where sid = "[]" and em = "[]"
        and nm = "[]" and al = "[]" and body = "[]"]
  note opn = dm_policy_decision [OF 1(2) 2(3) 3(3), where sid = "[]" and em = "[]"
        and nm = "[]" and al = "[]" and body = "''hi''"]
  note off = dm_policy_decision [OF 1(2) 2(4) 3(4), where sid = "[]" and em = "[]"
        and nm = "[]" and al = "[]" and body = "[]"]
  have A: "fst (handleMessage env0 cfg_pairing dm_alice world0) =
       Dispatch (buildContext cfg_pairing dm_alice world0 ''hello'')"
    using alice p(1) a s(1) by simp
  have A': "dispatched (fst (handleMessage env0 cfg_pairing dm_alice world0))"
    using alice p(1) a s(1) by (simp add: dispatched_def)
  have B: "fst (handleMessage env0 cfg_pairing dm_bob world0) = DmDenied"
    using bob p(1) b by simp
  have B': "\<not> dispatched (fst (handleMessage env0 cfg_pairing dm_bob world0))"
    using bob p(1) b by (simp add: dispatched_def)
  have C: "fst (handleMessage env0 cfg_open dm_bob world0) =
       Dispatch (buildContext cfg_open dm_bob world0 ''hi'')"
    using opn p(2) s(2) by simp
  have C': "To (buildContext cfg_open dm_bob world0 ''hi'') = ''dm:43''"
    using opn t by simp
  have D: "fst (handleMessage env0 ?off dm_bob world0) = DmDisabled"
    using off p(3) by blast
  show ?thesis using p(1) A A' B B' C C' D by blast
qed

lemma trim_id: "s \<noteq> [] \<Longrightarrow> \<not> isSpace (hd s) \<Longrightarrow> \<not> isSpace (last s) \<Longrightarrow> trim s = s"
proof -
  assume s: "s \<noteq> []" and h: "\<not> isSpace (hd s)" and l: "\<not> isSpace (last s)"
  from s h have 1: "dropWhile isSpace s = s" by (cases s) simp_all
  from s l have 2: "dropWhile isSpace (rev s) = rev s"
    by (cases "rev s") (simp_all add: last_rev [symmetric] del: last_rev)
  show ?thesis by (simp add: trim_def 1 2)
qed

lemma isSpace_digit: "d < 10 \<Longrightarrow> \<not> isSpace (digit d)"
  by (simp add: isSpace_def digit_def)

lemma decimal_chars: "c \<in> set (decimal n) \<Longrightarrow> \<exists>d<10. c = digit d"
proof (induction n rule: decimal.induct)
  case (1 n)
  show ?case
  proof (cases "n < 10")
    case True
    with "1.prems" show ?thesis by (subst (asm) decimal.simps) auto
  next
    case False
    with "1.prems" have "c \<in> set (decimal (n div 10)) \<or> c = digit (n mod 10)"
      by (subst (asm) decimal.simps) auto
    then show ?thesis
    proof
      assume "c \<in> set (decimal (n div 10))"
      with False "1.IH" show ?thesis by blast
    next
      assume "c = digit (n mod 10)"
      then show ?thesis by (intro exI [of _ "n mod 10"]) simp
    qed
  qed
qed

lemma decimal_not_Nil: "decimal n \<noteq> []"
  by (subst decimal.simps) simp

lemma String_of_not_Nil: "String_of i \<noteq> []"
  by (simp add: String_of_def decimal_not_Nil)

lemma String_of_no_space: "c \<in> set (String_of i) \<Longrightarrow> \<not> isSpace c"
proof -
  assume "c \<in> set (String_of i)"
  then have "c = CHR ''-'' \<or> c \<in> set (decimal (nat (- i))) \<or> c \<in> set (decimal (nat i))"
    by (auto simp: String_of_def split: if_splits)
  then show ?thesis
    using decimal_chars isSpace_digit by (auto simp: isSpace_def)
qed

lemma trim_String_of: "trim (String_of i) = String_of i"
  using String_of_no_space [of "hd (String_of i)" i] String_of_no_space [of "last (String_of i)" i]
  by (intro trim_id) (simp_all add: String_of_not_Nil)

lemma trim_dm: "trim (''dm:'' @ String_of i) = ''dm:'' @ String_of i"
proof (rule trim_id)
  show "''dm:'' @ String_of i \<noteq> []" by simp
  show "\<not> isSpace (hd (''dm:'' @ String_of i))" by (simp add: isSpace_def)
  show "\<not> isSpace (last (''dm:'' @ String_of i))"
    using String_of_no_space [of "last (String_of i)" i] String_of_not_Nil [of i]
    by simp
qed

lemma parse_dm:
  "parseZulipTarget (''dm:'' @ String_of i) = Inr \<lparr>ttype = TDirect, tto = String_of i, ttopic = None\<rparr>"
proof -
  have t: "trim (CHR ''d'' # CHR ''m'' # CHR '':'' # String_of i) =
      CHR ''d'' # CHR ''m'' # CHR '':'' # String_of i"
    using trim_dm [of i] by simp
  show ?thesis
    by (simp add: parseZulipTarget_def t Let_def startsWith_def toLowerCase_def lowerChar_def
        trim_String_of char_of_iff char_of_iff2)
qed

lemma parse_dm_Cons:
  "parseZulipTarget (CHR ''d'' # CHR ''m'' # CHR '':'' # String_of i) =
     Inr \<lparr>ttype = TDirect, tto = String_of i, ttopic = None\<rparr>"
  using parse_dm [of i] by simp

lemma requestPairing_old:
  "map_of (pairingRequests w) sid = Some c \<Longrightarrow> requestPairing e sid w = w"
  by (simp add: requestPairing_def upsertPairingRequest_def)

lemma sendZulipMessage_dm:
  assumes "clientReady e" and "trim text \<noteq> []"
  shows "snd (sendZulipMessage e (''dm:'' @ String_of i) text \<lparr>mediaUrl = None\<rparr> log) =
     log @ [Message \<lparr>ttype = TDirect, tto = String_of i, ttopic = None\<rparr> (trim text)]"
  using assms
  by (simp add: sendZulipMessage_def clientReady_def parse_dm_Cons attachMedia_def Let_def
      split: option.splits)


lemma requestPairing_new:
  assumes "map_of (pairingRequests w) (String_of i) = None" and "clientReady (sending e)"
    and "trim (buildPairingReply e (''Your Zulip user id: '' @ String_of i) (freshCode e)) \<noteq> []"
  shows "requestPairing e (String_of i) w =
     w\<lparr>pairingRequests := pairingRequests w @ [(String_of i, freshCode e)],
       transport := transport w @
         [Message \<lparr>ttype = TDirect, tto = String_of i, ttopic = None\<rparr>
            (trim (buildPairingReply e (''Your Zulip user id: '' @ String_of i) (freshCode e)))]\<rparr>"
proof -
  have "snd (sendZulipMessage (sending e) (''dm:'' @ String_of i)
          (buildPairingReply e (''Your Zulip user id: '' @ String_of i) (freshCode e))
          \<lparr>mediaUrl = None\<rparr> (transport w)) =
        transport w @
         [Message \<lparr>ttype = TDirect, tto = String_of i, ttopic = None\<rparr>
            (trim (buildPairingReply e (''Your Zulip user id: '' @ String_of i) (freshCode e)))]"
    using assms(2,3) by (rule sendZulipMessage_dm)
  with assms(1) show ?thesis
    by (simp add: requestPairing_def upsertPairingRequest_def del: append.simps)
qed


lemma handleMessage_allowFromStore:
  "allowFromStore (snd (handleMessage e cfg msg w)) = allowFromStore w"
  by (auto simp: handleMessage_def Let_def streamGate_recentIds dmGate_recentIds dmGate_cases
      requestPairing_allowFromStore split: prod.splits option.splits dm_policy.splits)

lemma handleMessage_dm_denied:
  assumes "dmPolicy cfg = PolicyPairing" and "msg_type msg = Private"
    and "sender_id msg \<noteq> botUserId cfg"
    and "\<not> isSenderAllowed (String_of (sender_id msg)) (sender_email msg) (sender_full_name msg)
           (getEffectiveAllowFrom cfg w)"
  shows "handleMessage e cfg msg w =
     (let dc = dedupeCheck (dedupeKey (cfg_accountId cfg) (msg_id msg)) (clock e) (recentIds w)
      in if fst dc then (Duplicate, w\<lparr>recentIds := snd dc\<rparr>)
         else (DmDenied, (requestPairing e (String_of (sender_id msg)) w)\<lparr>recentIds := snd dc\<rparr>))"
  using assms
  by (simp add: handleMessage_def Let_def dmGate_recentIds dmGate_cases
      getEffectiveAllowFrom_recentIds requestPairing_recentIds_update split: prod.splits)

lemma further_dropped:
  assumes "dmPolicy cfg = PolicyPairing"
    and "map_of (pairingRequests w) sid = Some c"
    and "list_all (\<lambda>(e, m). msg_type m = Private \<and> String_of (sender_id m) = sid
            \<and> sender_id m \<noteq> botUserId cfg
            \<and> \<not> isSenderAllowed (String_of (sender_id m)) (sender_email m) (sender_full_name m)
                  (getEffectiveAllowFrom cfg w)) ms"
  shows "pairingRequests (snd (handleMessages cfg ms w)) = pairingRequests w
    \<and> transport (snd (handleMessages cfg ms w)) = transport w
    \<and> list_all (\<lambda>out. out = DmDenied \<or> out = Duplicate) (fst (handleMessages cfg ms w))"
  using assms
proof (induction ms arbitrary: w)
  case Nil
  then show ?case by simp
next
  case (Cons em ms)
  obtain e m where em: "em = (e, m)" by (cases em)
  let ?dc = "dedupeCheck (dedupeKey (cfg_accountId cfg) (msg_id m)) (clock e) (recentIds w)"
  let ?w' = "snd (handleMessage e cfg m w)"
  have m: "msg_type m = Private" "String_of (sender_id m) = sid"
      "sender_id m \<noteq> botUserId cfg"
      "\<not> isSenderAllowed (String_of (sender_id m)) (sender_email m) (sender_full_name m)
            (getEffectiveAllowFrom cfg w)"
    using Cons.prems(3) unfolding em list.pred_inject split_conv by blast+
  have rp: "requestPairing e sid w = w"
    using Cons.prems(2) by (rule requestPairing_old)
  have hm: "handleMessage e cfg m w =
      (if fst ?dc then Duplicate else DmDenied, w\<lparr>recentIds := snd ?dc\<rparr>)"
    using handleMessage_dm_denied [OF Cons.prems(1) m(1) m(3) m(4), of e] m(2) rp
    by (simp add: Let_def)
  have g: "getEffectiveAllowFrom cfg ?w' = getEffectiveAllowFrom cfg w"
    by (simp add: getEffectiveAllowFrom_def handleMessage_allowFromStore)
  have p: "pairingRequests ?w' = pairingRequests w" and t: "transport ?w' = transport w"
    by (simp_all add: hm)
  have "list_all (\<lambda>(e, m). msg_type m = Private \<and> String_of (sender_id m) = sid
            \<and> sender_id m \<noteq> botUserId cfg
            \<and> \<not> isSenderAllowed (String_of (sender_id m)) (sender_email m) (sender_full_name m)
                  (getEffectiveAllowFrom cfg ?w')) ms"
    using Cons.prems(3) by (simp add: g)
  with Cons.IH [of ?w'] Cons.prems(1,2) p
  have ih: "pairingRequests (snd (handleMessages cfg ms ?w')) = pairingRequests ?w'
    \<and> transport (snd (handleMessages cfg ms ?w')) = transport ?w'
    \<and> list_all (\<lambda>out. out = DmDenied \<or> out = Duplicate) (fst (handleMessages cfg ms ?w'))"
    by simp
  have o: "fst (handleMessage e cfg m w) = DmDenied \<or> fst (handleMessage e cfg m w) = Duplicate"
    by (simp add: hm)
  show ?case
    using ih p t o by (simp add: em case_prod_beta)
qed

lemma filter_absent: "map_of reqs sid = None \<Longrightarrow> filter (\<lambda>r. fst r = sid) reqs = []"
  by (induction reqs) (auto split: if_splits)

text \<open>
  C3. Under the policy \<open>pairing\<close>, for a sender who is not on the allow-list and has no
  pending request: the first direct message stores exactly one pairing request for the
  sender and sends exactly one reply, built by \<open>buildPairingReply\<close> from the code of
  that request, and is dropped; any further direct messages of the same sender, while the
  allow-list is as it was, add no request and send nothing, and each is dropped (as
  denied, or as a duplicate). The reply is sent only when the upsert reports the request
  as created: a call of the pairing block whose upsert reports an old request leaves the
  transport as it is. The reply reaches the transport when the loaded configuration has
  the credentials and the reply text is not blank.
\<close>

theorem pairing_request_once:
  assumes "dmPolicy cfg = PolicyPairing"
    and "msg_type m1 = Private" and "sender_id m1 \<noteq> botUserId cfg"
    and "\<not> has (recentIds w) (dedupeKey (cfg_accountId cfg) (msg_id m1))"
    and "\<not> isSenderAllowed (String_of (sender_id m1)) (sender_email m1) (sender_full_name m1)
           (getEffectiveAllowFrom cfg w)"
    and "map_of (pairingRequests w) (String_of (sender_id m1)) = None"
    and "clientReady (sending e1)"
    and "trim (buildPairingReply e1 (''Your Zulip user id: '' @ String_of (sender_id m1))
                 (freshCode e1)) \<noteq> []"
    and "list_all (\<lambda>(e, m). msg_type m = Private \<and> sender_id m = sender_id m1
            \<and> \<not> isSenderAllowed (String_of (sender_id m)) (sender_email m) (sender_full_name m)
                  (getEffectiveAllowFrom cfg w)) further"
  shows "fst (handleMessage e1 cfg m1 w) = DmDenied
    \<and> pairingRequests (snd (handleMessage e1 cfg m1 w)) =
        pairingRequests w @ [(String_of (sender_id m1), freshCode e1)]
    \<and> length (filter (\<lambda>r. fst r = String_of (sender_id m1))
                (pairingRequests (snd (handleMessage e1 cfg m1 w)))) = 1
    \<and> transport (snd (handleMessage e1 cfg m1 w)) =
        transport w @
          [Message \<lparr>ttype = TDirect, tto = String_of (sender_id m1), ttopic = None\<rparr>
             (trim (buildPairingReply e1 (''Your Zulip user id: '' @ String_of (sender_id m1))
                      (freshCode e1)))]
    \<and> pairingRequests (snd (handleMessages cfg further (snd (handleMessage e1 cfg m1 w)))) =
        pairingRequests (snd (handleMessage e1 cfg m1 w))
    \<and> transport (snd (handleMessages cfg further (snd (handleMessage e1 cfg m1 w)))) =
        transport (snd (handleMessage e1 cfg m1 w))
    \<and> list_all (\<lambda>out. out = DmDenied \<or> out = Duplicate)
         (fst (handleMessages cfg further (snd (handleMessage e1 cfg m1 w))))
    \<and> (if snd (fst (upsertPairingRequest sid (freshCode e) (pairingRequests v)))
        then True else transport (requestPairing e sid v) = transport v)"
proof -
  let ?sid = "String_of (sender_id m1)"
  let ?w1 = "snd (handleMessage e1 cfg m1 w)"
  let ?reply = "trim (buildPairingReply e1 (''Your Zulip user id: '' @ ?sid) (freshCode e1))"
  have dc: "dedupeCheck (dedupeKey (cfg_accountId cfg) (msg_id m1)) (clock e1) (recentIds w) =
      (False, cleanup (clock e1) (recentIds w) @ [(dedupeKey (cfg_accountId cfg) (msg_id m1), clock e1)])"
    using assms(4) by (rule dedupeCheck_first)
  have rp: "requestPairing e1 ?sid w =
     w\<lparr>pairingRequests := pairingRequests w @ [(?sid, freshCode e1)],
       transport := transport w @ [Message \<lparr>ttype = TDirect, tto = ?sid, ttopic = None\<rparr> ?reply]\<rparr>"
    using assms(6,7,8) by (rule requestPairing_new)
  have hm: "handleMessage e1 cfg m1 w =
      (DmDenied, (requestPairing e1 ?sid w)\<lparr>recentIds := cleanup (clock e1) (recentIds w)
          @ [(dedupeKey (cfg_accountId cfg) (msg_id m1), clock e1)]\<rparr>)"
    using handleMessage_dm_denied [OF assms(1,2,3,5), of e1] by (simp add: dc)
  have 1: "fst (handleMessage e1 cfg m1 w) = DmDenied"
    by (simp add: hm)
  have 2: "pairingRequests ?w1 = pairingRequests w @ [(?sid, freshCode e1)]"
    by (simp add: hm rp)
  have 3: "length (filter (\<lambda>r. fst r = ?sid) (pairingRequests ?w1)) = 1"
    by (simp add: 2 filter_absent [OF assms(6)])
  have 4: "transport ?w1 = transport w @ [Message \<lparr>ttype = TDirect, tto = ?sid, ttopic = None\<rparr> ?reply]"
    by (simp add: hm rp)
  have pending: "map_of (pairingRequests ?w1) ?sid = Some (freshCode e1)"
    by (simp add: 2 map_add_Some_iff assms(6))
  have g: "getEffectiveAllowFrom cfg ?w1 = getEffectiveAllowFrom cfg w"
    by (simp add: getEffectiveAllowFrom_def handleMessage_allowFromStore)
  have "list_all (\<lambda>(e, m). msg_type m = Private \<and> String_of (sender_id m) = ?sid
            \<and> sender_id m \<noteq> botUserId cfg
            \<and> \<not> isSenderAllowed (String_of (sender_id m)) (sender_email m) (sender_full_name m)
                  (getEffectiveAllowFrom cfg ?w1)) further"
    using assms(9) assms(3) unfolding g by (auto simp: list_all_iff)
  note f = further_dropped [OF assms(1) pending this]
  have u: "(if snd (fst (upsertPairingRequest sid (freshCode e) (pairingRequests v)))
        then True else transport (requestPairing e sid v) = transport v)"
    by (simp add: requestPairing_def upsertPairingRequest_def split: option.splits)
  show ?thesis using 1 2 3 4 f u by blast
qed

theorem pairing_request_once_witness:
  "fst (handleMessage env0 cfg_pairing dm_bob world0) = DmDenied
   \<and> pairingRequests (snd (handleMessages cfg_pairing [(env0, dm_bob\<lparr>msg_id := 10\<rparr>)]
                             (snd (handleMessage env0 cfg_pairing dm_bob world0)))) =
       [(''43'', ''K7Q2'')]
   \<and> transport (snd (handleMessages cfg_pairing [(env0, dm_bob\<lparr>msg_id := 10\<rparr>)]
                       (snd (handleMessage env0 cfg_pairing dm_bob world0)))) =
       [Message \<lparr>ttype = TDirect, tto = ''43'', ttopic = None\<rparr>
          ''Your Zulip user id: 43 / Pairing code: K7Q2'']"
proof -
  have 1: "dmPolicy cfg_pairing = PolicyPairing"
    by (simp add: cfg_pairing_def dmPolicy_def)
  have 2: "msg_type dm_bob = Private" by (simp add: dm_bob_def)
  have 3: "sender_id dm_bob \<noteq> botUserId cfg_pairing" by (simp add: world_eval)
  have 4: "\<not> has (recentIds world0) (dedupeKey (cfg_accountId cfg_pairing) (msg_id dm_bob))"
    by (simp add: world0_def has_def)
  have 5: "\<not> isSenderAllowed (String_of (sender_id dm_bob)) (sender_email dm_bob)
        (sender_full_name dm_bob) (getEffectiveAllowFrom cfg_pairing world0)"
    by (simp add: world_eval policy_eval str_eval)
  have 6: "map_of (pairingRequests world0) (String_of (sender_id dm_bob)) = None"
    by (simp add: world0_def)
  have 7: "clientReady (sending env0)"
    by (simp add: world_eval clientReady_def missing_def createZulipClient_def
        normalizeServerUrl_def str_eval)
  have s: "String_of (sender_id dm_bob) = ''43''"
    by (simp add: dm_bob_def String_of_def decimal.simps digit_def char_of_iff)
  have r: "trim (buildPairingReply env0 (''Your Zulip user id: '' @ String_of (sender_id dm_bob))
                 (freshCode env0)) = ''Your Zulip user id: 43 / Pairing code: K7Q2''"
    by (simp add: s env0_def trim_def isSpace_def)
  have 8: "trim (buildPairingReply env0 (''Your Zulip user id: '' @ String_of (sender_id dm_bob))
                 (freshCode env0)) \<noteq> []"
    by (simp only: r) simp
  have 9: "list_all (\<lambda>(e, m). msg_type m = Private \<and> sender_id m = sender_id dm_bob
            \<and> \<not> isSenderAllowed (String_of (sender_id m)) (sender_email m) (sender_full_name m)
                  (getEffectiveAllowFrom cfg_pairing world0)) [(env0, dm_bob\<lparr>msg_id := 10\<rparr>)]"
    using 5 by (simp add: dm_bob_def)
  have f: "freshCode env0 = ''K7Q2''" "transport world0 = []" "pairingRequests world0 = []"
    by (simp_all add: env0_def world0_def)
  have r2: "trim (buildPairingReply env0 ''Your Zulip user id: 43'' ''K7Q2'') =
      ''Your Zulip user id: 43 / Pairing code: K7Q2''"
    by (simp add: env0_def trim_def isSpace_def)
  from pairing_request_once [OF 1 2 3 4 5 6 7 8 9, where e = env0 and sid = "[]" and v = world0]
  show ?thesis
    by (simp add: s f r2)
qed

theorem stream_policy_decision_witness:
  "\<not> inAutoReplyStream cfg_auto stream_ask
   \<and> wasBotMentioned (trim (content stream_ask)) (botName cfg_auto)
   \<and> fst (handleMessage env0 cfg_auto stream_ask world0) =
       Dispatch (buildContext cfg_auto stream_ask world0 ''what time is it'')
   \<and> To (buildContext cfg_auto stream_ask world0 ''what time is it'') = ''stream:random:help''
   \<and> inAutoReplyStream cfg_auto stream_carol
   \<and> getEffectiveAllowFrom cfg_auto world0 = []
   \<and> fst (handleMessage env0 cfg_auto stream_carol world0) =
       Dispatch (buildContext cfg_auto stream_carol world0 ''hello world'')
   \<and> dispatched (fst (handleMessage env0 cfg_auto stream_carol world0))
   \<and> \<not> inAutoReplyStream cfg_auto (stream_carol\<lparr>display_recipient := RecipientName ''random''\<rparr>)
   \<and> fst (handleMessage env0 cfg_auto
            (stream_carol\<lparr>display_recipient := RecipientName ''random''\<rparr>) world0) = NotMentioned"
proof -
  let ?m = "stream_carol\<lparr>display_recipient := RecipientName ''random''\<rparr>"
  have 1: "msg_type stream_carol = Stream" "msg_type ?m = Stream" "msg_type stream_ask = Stream"
    by (simp_all add: stream_carol_def stream_ask_def)
  have 2: "sender_id stream_carol \<noteq> botUserId cfg_auto" "sender_id ?m \<noteq> botUserId cfg_auto"
      "sender_id stream_ask \<noteq> botUserId cfg_auto"
    by (simp_all add: world_eval)
  have 3: "\<not> fst (dedupeCheck (dedupeKey (cfg_accountId cfg_auto) (msg_id stream_carol))
                  (clock env0) (recentIds world0))"
    "\<not> fst (dedupeCheck (dedupeKey (cfg_accountId cfg_auto) (msg_id ?m))
             (clock env0) (recentIds world0))"
    "\<not> fst (dedupeCheck (dedupeKey (cfg_accountId cfg_auto) (msg_id stream_ask))
             (clock env0) (recentIds world0))"
    by (rule passes_dedup, simp add: world0_def has_def)+
  have a: "inAutoReplyStream cfg_auto stream_carol"
    by (simp add: world_eval policy_eval str_eval)
  have b: "getEffectiveAllowFrom cfg_auto world0 = []"
    by (simp add: world_eval policy_eval)
  have c: "\<not> inAutoReplyStream cfg_auto ?m"
    by (simp add: world_eval policy_eval str_eval)
  have d: "\<not> wasBotMentioned (trim (content ?m)) (botName cfg_auto)"
    by (simp add: world_eval policy_eval str_eval)
  have e: "\<not> matchesMentionPatterns env0 (trim (content ?m))"
    by (simp add: env0_def)
  have f: "\<not> inAutoReplyStream cfg_auto stream_ask"
    by (simp add: world_eval policy_eval str_eval)
  have g: "wasBotMentioned (trim (content stream_ask)) (botName cfg_auto)"
    by (simp add: world_eval policy_eval str_eval)
  have s: "stripMention (trim (content stream_ask)) (botName cfg_auto) = ''what time is it''"
      "stripMention (trim (content stream_carol)) (botName cfg_auto) = ''hello world''"
    by (simp_all add: world_eval policy_eval str_eval)
  note ask = stream_policy_decision [OF 1(3) 2(3) 3(3), where s = "[]" and bn = "[]"
      and body = "''what time is it''"]
  note carol = stream_policy_decision [OF 1(1) 2(1) 3(1), where s = "[]" and bn = "[]"
      and body = "[]"]
  note other = stream_policy_decision [OF 1(2) 2(2) 3(2), where s = "[]" and bn = "[]"
      and body = "[]"]
  have A: "fst (handleMessage env0 cfg_auto stream_ask world0) =
       Dispatch (buildContext cfg_auto stream_ask world0 ''what time is it'')"
    using ask f g s(1) by simp
  have A': "To (buildContext cfg_auto stream_ask world0 ''what time is it'') = ''stream:random:help''"
    using ask by (simp add: stream_ask_def)
  have B: "fst (handleMessage env0 cfg_auto stream_carol world0) =
       Dispatch (buildContext cfg_auto stream_carol world0 ''hello world'')"
    using carol a b s(2) by simp
  have B': "dispatched (fst (handleMessage env0 cfg_auto stream_carol world0))"
    using carol a b s(2) by (simp add: dispatched_def)
  have C: "fst (handleMessage env0 cfg_auto ?m world0) = NotMentioned"
    using other c d e by presburger
  show ?thesis using f g A A' a b B B' c C by blast
qed

theorem command_authorized_witness:
  "fst (handleMessage env0 cfg_pairing dm_alice world0) =
     Dispatch (buildContext cfg_pairing dm_alice world0 ''hello'')
   \<and> CommandAuthorized (buildContext cfg_pairing dm_alice world0 ''hello'')"
proof -
  have 1: "msg_type dm_alice = Private" by (simp add: dm_alice_def)
  have 2: "sender_id dm_alice \<noteq> botUserId cfg_pairing" by (simp add: world_eval)
  have 3: "\<not> has (recentIds world0) (dedupeKey (cfg_accountId cfg_pairing) (msg_id dm_alice))"
    by (simp add: world0_def has_def)
  have a: "isSenderAllowed (String_of (sender_id dm_alice)) (sender_email dm_alice)
        (sender_full_name dm_alice) (getEffectiveAllowFrom cfg_pairing world0)"
    by (simp add: world_eval policy_eval str_eval)
  have p: "dmPolicy cfg_pairing = PolicyPairing"
    by (simp add: cfg_pairing_def dmPolicy_def)
  have b: "stripMention (trim (content dm_alice)) (botName cfg_pairing) = ''hello''"
    by (simp add: world_eval policy_eval str_eval)
  have h: "fst (handleMessage env0 cfg_pairing dm_alice world0) =
     Dispatch (buildContext cfg_pairing dm_alice world0 ''hello'')"
    by (simp add: handleMessage_dm [OF 1 2 3] dmGate_cases p a contextStage_def b)
  from command_authorized [OF h] 1 show ?thesis using h by simp
qed

section \<open>The cleaned body\<close>

lemma replaceAllCI_no_match: "\<not> testCI pat s \<Longrightarrow> replaceAllCI pat rep s = s"
  by (induction s) auto

lemma dropWhile_id: "s = [] \<or> \<not> P (hd s) \<Longrightarrow> dropWhile P s = s"
  by (cases s) auto

lemma trim_hd: "trim s \<noteq> [] \<Longrightarrow> \<not> isSpace (hd (trim s))"
proof -
  assume n: "trim s \<noteq> []"
  let ?u = "dropWhile isSpace s"
  let ?v = "dropWhile isSpace (rev ?u)"
  from n have v: "?v \<noteq> []" by (simp add: trim_def)
  have u: "?u \<noteq> []"
  proof
    assume "?u = []"
    then have "?v = []" by (metis dropWhile.simps(1) rev.simps(1))
    with v show False by blast
  qed
  have "hd (rev ?v) = last ?v" using v by (simp add: hd_rev)
  also have "\<dots> = last (rev ?u)"
  proof -
    obtain x where x: "x \<in> set (rev ?u)" "\<not> isSpace x"
      using v by (metis dropWhile_eq_Nil_conv)
    then show ?thesis by (rule dropWhile_last)
  qed
  also have "\<dots> = hd ?u" using u by (simp add: last_rev)
  finally have "hd (trim s) = hd ?u" by (simp add: trim_def)
  with u show ?thesis using hd_dropWhile [of isSpace s] by simp
qed

lemma trim_last: "trim s \<noteq> [] \<Longrightarrow> \<not> isSpace (last (trim s))"
proof -
  assume n: "trim s \<noteq> []"
  let ?v = "dropWhile isSpace (rev (dropWhile isSpace s))"
  from n have v: "?v \<noteq> []" by (simp add: trim_def)
  have "last (trim s) = hd ?v" using v by (simp add: trim_def last_rev)
  with v show ?thesis using hd_dropWhile [of isSpace "rev (dropWhile isSpace s)"] by simp
qed

lemma trim_trim: "trim (trim s) = trim s"
proof (cases "trim s = []")
  case True
  have "trim [] = []" by (simp add: trim_def)
  with True show ?thesis by simp
next
  case False
  then show ?thesis by (intro trim_id trim_hd trim_last)
qed

lemma singleSpaced_collapse: "singleSpaced s \<Longrightarrow> collapseSpaces s = s"
  by (induction s rule: singleSpaced.induct) (auto split: if_splits)

lemma singleSpaced_last: "singleSpaced s \<Longrightarrow> s \<noteq> [] \<Longrightarrow> \<not> isSpace (last s)"
  by (induction s rule: singleSpaced.induct) (auto split: if_splits)

lemma tidy_trim: "tidy s \<Longrightarrow> trim s = s"
  by (simp add: tidy_def trim_id singleSpaced_last)

lemma tidy_collapse: "tidy s \<Longrightarrow> collapseSpaces s = s"
  by (simp add: tidy_def singleSpaced_collapse)

lemma stripMention_no_mention:
  "\<not> wasBotMentioned text name \<Longrightarrow>
   stripMention text name = (if name = [] then trim text else trim (collapseSpaces text))"
  by (auto simp: stripMention_def wasBotMentioned_def replaceAllCI_no_match)

lemma bodyOf_contextStage:
  "bodyOf (contextStage cfg msg w) =
     (if stripMention (trim (content msg)) (botName cfg) = [] then None
      else Some (stripMention (trim (content msg)) (botName cfg)))"
  by (simp add: bodyOf_def contextStage_def buildContext_def Let_def)

lemma if_then_holds: "(if c then P else True) \<Longrightarrow> c \<Longrightarrow> P"
  by simp

text \<open>
  C8, as the claim states it, fails: a stream message in the auto-reply stream
  \<open>general\<close>, with an empty allow-list and no mention in its text \<open>hello  world\<close>
  (two spaces), reaches reply generation with the body \<open>hello world\<close> (one space),
  which is not the raw content.
\<close>

theorem auto_reply_body_counterexample:
  "msg_type stream_carol = Stream
   \<and> sender_id stream_carol \<noteq> botUserId cfg_auto
   \<and> \<not> fst (dedupeCheck (dedupeKey (cfg_accountId cfg_auto) (msg_id stream_carol)) (clock env0)
              (recentIds world0))
   \<and> inAutoReplyStream cfg_auto stream_carol
   \<and> getEffectiveAllowFrom cfg_auto world0 = []
   \<and> \<not> wasBotMentioned (content stream_carol) (botName cfg_auto)
   \<and> \<not> wasBotMentioned (trim (content stream_carol)) (botName cfg_auto)
   \<and> content stream_carol = ''hello  world''
   \<and> fst (handleMessage env0 cfg_auto stream_carol world0) =
       Dispatch (buildContext cfg_auto stream_carol world0 ''hello world'')
   \<and> bodyOf (fst (handleMessage env0 cfg_auto stream_carol world0)) = Some ''hello world''"
proof -
  have 1: "msg_type stream_carol = Stream" by (simp add: stream_carol_def)
  have 2: "sender_id stream_carol \<noteq> botUserId cfg_auto" by (simp add: world_eval)
  have 3: "\<not> fst (dedupeCheck (dedupeKey (cfg_accountId cfg_auto) (msg_id stream_carol))
                  (clock env0) (recentIds world0))"
    by (rule passes_dedup) (simp add: world0_def has_def)
  have a: "inAutoReplyStream cfg_auto stream_carol"
    by (simp add: world_eval policy_eval str_eval)
  have b: "getEffectiveAllowFrom cfg_auto world0 = []"
    by (simp add: world_eval policy_eval)
  have c: "\<not> wasBotMentioned (content stream_carol) (botName cfg_auto)"
      "\<not> wasBotMentioned (trim (content stream_carol)) (botName cfg_auto)"
    by (simp_all add: world_eval policy_eval str_eval)
  have d: "stripMention (trim (content stream_carol)) (botName cfg_auto) = ''hello world''"
    by (simp add: world_eval policy_eval str_eval)
  have h: "fst (handleMessage env0 cfg_auto stream_carol world0) =
      Dispatch (buildContext cfg_auto stream_carol world0 ''hello world'')"
    by (simp add: handleMessage_stream_passed [OF 1 2 3] streamGate_cases a b contextStage_body d)
  have "bodyOf (fst (handleMessage env0 cfg_auto stream_carol world0)) = Some ''hello world''"
    by (simp add: h bodyOf_def buildContext_def Let_def)
  moreover have "content stream_carol = ''hello  world''"
    by (simp add: stream_carol_def)
  ultimately show ?thesis using 1 2 3 a b c h by blast
qed

text \<open>
  C8, amended. A stream message in an auto-reply stream that passes the self-message
  check and the dedup check, with an empty effective allow-list and no mention of the bot
  in its text, is not asked for a mention. Its cleaned body is, when the bot has a display
  name, the trimmed content with every run of white space made one space, and, when the
  bot has no display name, the trimmed content as it is. When that body is empty the
  message is dropped; otherwise it is processed, and the context handed to reply
  generation holds that body. The body equals the raw content whenever the content is
  tidy: not empty, without white space at its ends, and with single spaces as its only
  white space.
\<close>

theorem auto_reply_body:
  assumes "msg_type msg = Stream" and "sender_id msg \<noteq> botUserId cfg"
    and "\<not> fst (dedupeCheck (dedupeKey (cfg_accountId cfg) (msg_id msg)) (clock e) (recentIds w))"
    and "inAutoReplyStream cfg msg" and "getEffectiveAllowFrom cfg w = []"
    and "\<not> wasBotMentioned (trim (content msg)) (botName cfg)"
  shows "fst (handleMessage e cfg msg w) =
        (let body = (if botName cfg = [] then trim (content msg)
                     else trim (collapseSpaces (trim (content msg))))
         in if body = [] then EmptyBody else Dispatch (buildContext cfg msg w body))
    \<and> dispatched (fst (handleMessage e cfg msg w)) =
        ((if botName cfg = [] then trim (content msg)
          else trim (collapseSpaces (trim (content msg)))) \<noteq> [])
    \<and> bodyOf (fst (handleMessage e cfg msg w)) =
        (let body = (if botName cfg = [] then trim (content msg)
                     else trim (collapseSpaces (trim (content msg))))
         in if body = [] then None else Some body)
    \<and> BodyForAgent (buildContext cfg msg w body) = body
    \<and> (if tidy (content msg)
        then fst (handleMessage e cfg msg w) = Dispatch (buildContext cfg msg w (content msg))
             \<and> bodyOf (fst (handleMessage e cfg msg w)) = Some (content msg)
        else True)"
proof -
  let ?H = "fst (handleMessage e cfg msg w)"
  let ?body = "if botName cfg = [] then trim (content msg)
               else trim (collapseSpaces (trim (content msg)))"
  have sm: "stripMention (trim (content msg)) (botName cfg) = ?body"
    using assms(6) by (simp add: stripMention_no_mention trim_trim)
  have "?H = contextStage cfg msg w"
    by (simp add: handleMessage_stream_passed [OF assms(1,2,3)] streamGate_cases assms(4,5))
  then have 1: "?H = (if ?body = [] then EmptyBody else Dispatch (buildContext cfg msg w ?body))"
    by (simp only: contextStage_body sm)
  have 2: "dispatched ?H = (?body \<noteq> [])"
    by (simp only: 1) (simp add: dispatched_def)
  have b: "BodyForAgent (buildContext cfg msg w x) = x" for x
    by (simp add: buildContext_def Let_def)
  have 3: "bodyOf ?H = (if ?body = [] then None else Some ?body)"
    by (simp only: 1) (simp add: bodyOf_def b)
  have 4: "?H = Dispatch (buildContext cfg msg w (content msg))
           \<and> bodyOf ?H = Some (content msg)" if "tidy (content msg)"
  proof -
    from that have "?body = content msg"
      by (simp add: tidy_trim tidy_collapse)
    moreover from that have "content msg \<noteq> []" by (simp add: tidy_def)
    ultimately show ?thesis using 1 3 by simp
  qed
  show ?thesis using 1 2 3 4 b [of body] by (simp only: Let_def) simp
qed

theorem auto_reply_body_witness:
  "tidy ''hello world''
   \<and> fst (handleMessage env0 cfg_auto (stream_carol\<lparr>content := ''hello world''\<rparr>) world0) =
       Dispatch (buildContext cfg_auto (stream_carol\<lparr>content := ''hello world''\<rparr>) world0
                   ''hello world'')
   \<and> bodyOf (fst (handleMessage env0 cfg_auto (stream_carol\<lparr>content := ''hello world''\<rparr>) world0))
       = Some ''hello world''
   \<and> bodyOf (fst (handleMessage env0 (cfg_auto\<lparr>botName := []\<rparr>) stream_carol world0))
       = Some ''hello  world''"
proof -
  let ?m = "stream_carol\<lparr>content := ''hello world''\<rparr>"
  let ?c = "cfg_auto\<lparr>botName := []\<rparr>"
  have 1: "msg_type ?m = Stream" "msg_type stream_carol = Stream"
    by (simp_all add: stream_carol_def)
  have 2: "sender_id ?m \<noteq> botUserId cfg_auto" "sender_id stream_carol \<noteq> botUserId ?c"
    by (simp_all add: world_eval)
  have 3: "\<not> fst (dedupeCheck (dedupeKey (cfg_accountId cfg_auto) (msg_id ?m)) (clock env0)
                  (recentIds world0))"
    "\<not> fst (dedupeCheck (dedupeKey (cfg_accountId ?c) (msg_id stream_carol)) (clock env0)
             (recentIds world0))"
    by (rule passes_dedup, simp add: world0_def has_def)+
  have 4: "inAutoReplyStream cfg_auto ?m" "inAutoReplyStream ?c stream_carol"
    by (simp_all add: world_eval policy_eval str_eval)
  have 5: "getEffectiveAllowFrom cfg_auto world0 = []" "getEffectiveAllowFrom ?c world0 = []"
    by (simp_all add: world_eval policy_eval)
  have 6: "\<not> wasBotMentioned (trim (content ?m)) (botName cfg_auto)"
    "\<not> wasBotMentioned (trim (content stream_carol)) (botName ?c)"
    by (simp_all add: world_eval policy_eval str_eval)
  have t: "tidy ''hello world''"
    by (simp add: tidy_def isSpace_def)
  have c: "content ?m = ''hello world''" by simp
  have tc: "tidy (content ?m)" using t by simp
  from auto_reply_body [OF 1(1) 2(1) 3(1) 4(1) 5(1) 6(1), where body = "[]"]
  have "if tidy (content ?m)
        then fst (handleMessage env0 cfg_auto ?m world0) =
               Dispatch (buildContext cfg_auto ?m world0 (content ?m))
             \<and> bodyOf (fst (handleMessage env0 cfg_auto ?m world0)) = Some (content ?m)
        else True"
    by blast
  from if_then_holds [OF this tc]
  have A: "fst (handleMessage env0 cfg_auto ?m world0) =
               Dispatch (buildContext cfg_auto ?m world0 ''hello world'')
             \<and> bodyOf (fst (handleMessage env0 cfg_auto ?m world0)) = Some ''hello world''"
    unfolding c .
  have n: "botName ?c = []" by simp
  have r: "trim (content stream_carol) = ''hello  world''"
    by (simp add: stream_carol_def str_eval)
  from auto_reply_body [OF 1(2) 2(2) 3(2) 4(2) 5(2) 6(2), where body = "[]"]
  have "bodyOf (fst (handleMessage env0 ?c stream_carol world0)) =
        (let body = (if botName ?c = [] then trim (content stream_carol)
                     else trim (collapseSpaces (trim (content stream_carol))))
         in if body = [] then None else Some body)"
    by blast
  then have B: "bodyOf (fst (handleMessage env0 ?c stream_carol world0)) = Some ''hello  world''"
    unfolding n r by (simp add: Let_def)
  show ?thesis using t A B by blast
qed
section \<open>Properties of the reply delivery\<close>

text \<open>
  \<open>attempt\<close> is \<open>sendZulipMessage\<close> without a media URL, up to its request: when
  \<open>attempt\<close> gives an error, the send throws it and the transport has seen nothing;
  when it gives a request, the send adds that request and nothing else, and returns or
  throws as the transport answers.
\<close>

lemma sendZulipMessage_attempt:
  "sendZulipMessage e to chunk \<lparr>mediaUrl = None\<rparr> log =
     (case attempt e to chunk of
        Inl err \<Rightarrow> (Inl err, log)
      | Inr r \<Rightarrow>
          (case r of
             Message tgt c \<Rightarrow>
               (case sendZulipApiMessage e tgt c of
                  None \<Rightarrow> Inl ApiError | Some msgId \<Rightarrow> Inr (String_of msgId))
           | Upload n \<Rightarrow> Inl ApiError,
           log @ [r]))"
  by (simp add: sendZulipMessage_def attempt_def attachMedia_def Let_def
      split: sum.splits option.splits)

lemma attempt_Message:
  "attempt e to chunk = Inr r \<Longrightarrow> \<exists>t. r = Message t (trim chunk)"
  by (auto simp: attempt_def Let_def split: if_splits sum.splits)




lemma attempt_ready:
  "clientReady e \<Longrightarrow> parseZulipTarget to = Inr tgt \<Longrightarrow> trim chunk \<noteq> [] \<Longrightarrow>
   attempt e to chunk = Inr (Message tgt (trim chunk))"
  by (simp add: attempt_def clientReady_def Let_def)

lemma runLoop_InFlight:
  "runLoop e to task = InFlight r rest \<Longrightarrow> \<exists>pre c t. task = pre @ c # rest \<and> r = Message t (trim c)"
proof (induction task)
  case Nil
  then show ?case by simp
next
  case (Cons chunk task)
  show ?case
  proof (cases "chunk = []")
    case True
    with Cons obtain pre c t where "task = pre @ c # rest" "r = Message t (trim c)"
      by auto
    then have "chunk # task = (chunk # pre) @ c # rest \<and> r = Message t (trim c)" by simp
    then show ?thesis by blast
  next
    case False
    with Cons.prems have "attempt e to chunk = Inr r" and "rest = task"
      by (auto split: sum.splits)
    then obtain t where "r = Message t (trim chunk)" using attempt_Message by blast
    with \<open>rest = task\<close> have "chunk # task = [] @ chunk # rest \<and> r = Message t (trim chunk)"
      by simp
    then show ?thesis by blast
  qed
qed

lemma serial_append:
  "serial cur (es @ es') = (case serial cur es of None \<Rightarrow> None | Some c \<Rightarrow> serial c es')"
  by (induction cur es rule: serial.induct) auto

lemma advance_serial:
  "serial None (events st) = Some None \<Longrightarrow>
   serial None (events (advance e to ts st)) = Some (map_option fst (running (advance e to ts st)))"
proof (induction ts arbitrary: st)
  case Nil
  then show ?case by simp
next
  case (Cons task ts)
  show ?case
  proof (cases "runLoop e to task")
    case Ended
    with Cons show ?thesis by simp
  next
    case (Threw err)
    with Cons.IH [of "st\<lparr>logged := logged st @ [err]\<rparr>"] Cons.prems show ?thesis by simp
  next
    case (InFlight r rest)
    with Cons.prems show ?thesis by (simp add: serial_append)
  qed
qed

lemma step_serial:
  assumes "serial None (events st) = Some (map_option fst (running st))"
  shows "serial None (events (step e to chunker st a)) =
           Some (map_option fst (running (step e to chunker st a)))"
proof (cases a)
  case (Deliver payload)
  show ?thesis
  proof (cases "running st")
    case None
    with assms Deliver show ?thesis by (simp add: advance_serial)
  next
    case (Some inflight)
    with assms Deliver show ?thesis by simp
  qed
next
  case (Settle ok)
  show ?thesis
  proof (cases "running st")
    case None
    with assms Settle show ?thesis by simp
  next
    case (Some inflight)
    obtain r rest where rr: "inflight = (r, rest)" by (cases inflight)
    let ?st' = "st\<lparr>events := events st @ [Completed r ok]\<rparr>"
    from assms Some rr have d: "serial None (events ?st') = Some None"
      by (simp add: serial_append)
    then have d': "serial None (events (?st'\<lparr>logged := logged ?st' @ [ApiError]\<rparr>)) = Some None"
      by simp
    show ?thesis
    proof (cases ok)
      case True
      with Settle Some rr advance_serial [OF d, of e to "rest # waiting st"]
      show ?thesis by (simp add: Let_def)
    next
      case False
      with Settle Some rr advance_serial [OF d', of e to "waiting st"]
      show ?thesis by (simp add: Let_def)
    qed
  qed
qed

lemma foldl_serial:
  "serial None (events st) = Some (map_option fst (running st)) \<Longrightarrow>
   serial None (events (foldl (step e to chunker) st acts)) =
     Some (map_option fst (running (foldl (step e to chunker) st acts)))"
proof (induction acts arbitrary: st)
  case Nil
  then show ?case by simp
next
  case (Cons a acts)
  from Cons.prems have "serial None (events (step e to chunker st a)) =
           Some (map_option fst (running (step e to chunker st a)))"
    by (rule step_serial)
  then show ?case using Cons.IH by simp
qed

lemma run_serial:
  "serial None (events (run e to chunker acts)) =
     Some (map_option fst (running (run e to chunker acts)))"
proof -
  have "serial None (events dispatch_init) = Some (map_option fst (running dispatch_init))"
    by (simp add: dispatch_init_def)
  then show ?thesis unfolding run_def by (rule foldl_serial)
qed

lemma submitted_append: "submitted (es @ es') = submitted es @ submitted es'"
  by (induction es rule: submitted.induct) auto

lemma requests_append: "requests (es @ es') = requests es @ requests es'"
  by (induction es rule: requests.induct) auto

lemma answers_append: "answers (es @ es') = answers es @ answers es'"
  by (induction es rule: answers.induct) auto

lemma advance_order:
  "\<exists>used new. concat ts = used @ pendingChunks (advance e to ts st)
     \<and> submitted (events (advance e to ts st)) = submitted (events st) @ new
     \<and> subseq new (map trim used)"
proof (induction ts arbitrary: st)
  case Nil
  show ?case by (simp add: pendingChunks_def)
next
  case (Cons task ts)
  show ?case
  proof (cases "runLoop e to task")
    case Ended
    from Cons.IH [of st] obtain used new where
      "concat ts = used @ pendingChunks (advance e to ts st)"
      "submitted (events (advance e to ts st)) = submitted (events st) @ new"
      "subseq new (map trim used)" by blast
    with Ended have "concat (task # ts) = (task @ used) @ pendingChunks (advance e to (task # ts) st)
      \<and> submitted (events (advance e to (task # ts) st)) = submitted (events st) @ new
      \<and> subseq new (map trim (task @ used))"
      by (simp add: list_emb_append2)
    then show ?thesis by blast
  next
    case (Threw err)
    let ?st = "st\<lparr>logged := logged st @ [err]\<rparr>"
    from Cons.IH [of ?st] obtain used new where
      "concat ts = used @ pendingChunks (advance e to ts ?st)"
      "submitted (events (advance e to ts ?st)) = submitted (events ?st) @ new"
      "subseq new (map trim used)" by blast
    with Threw have "concat (task # ts) = (task @ used) @ pendingChunks (advance e to (task # ts) st)
      \<and> submitted (events (advance e to (task # ts) st)) = submitted (events st) @ new
      \<and> subseq new (map trim (task @ used))"
      by (simp add: list_emb_append2)
    then show ?thesis by blast
  next
    case (InFlight r rest)
    then obtain pre c t where t: "task = pre @ c # rest" "r = Message t (trim c)"
      using runLoop_InFlight by blast
    have "subseq [trim c] (map trim (pre @ [c]))"
      by (simp add: list_emb_append2)
    with InFlight t have "concat (task # ts) = (pre @ [c]) @ pendingChunks (advance e to (task # ts) st)
      \<and> submitted (events (advance e to (task # ts) st)) = submitted (events st) @ [trim c]
      \<and> subseq [trim c] (map trim (pre @ [c]))"
      by (simp add: pendingChunks_def submitted_append)
    then show ?thesis by blast
  qed
qed

lemma subseq_extend:
  "subseq xs (map f ys) \<Longrightarrow> subseq new (map f used) \<Longrightarrow> subseq (xs @ new) (map f (ys @ mid @ used))"
proof -
  assume a: "subseq xs (map f ys)" and b: "subseq new (map f used)"
  from b have "subseq new (map f mid @ map f used)" by (rule list_emb_append2)
  with a have "subseq (xs @ new) (map f ys @ map f mid @ map f used)"
    by (rule list_emb_append_mono)
  then show ?thesis by simp
qed

lemma step_order:
  assumes "P = finished @ pendingChunks st"
    and "subseq (submitted (events st)) (map trim finished)"
  shows "\<exists>finished'.
      P @ (case a of Deliver payload \<Rightarrow> chunksToSend chunker payload | Settle ok \<Rightarrow> []) =
        finished' @ pendingChunks (step e to chunker st a)
      \<and> subseq (submitted (events (step e to chunker st a))) (map trim finished')"
proof (cases a)
  case (Deliver payload)
  let ?task = "chunksToSend chunker payload"
  show ?thesis
  proof (cases "running st")
    case None
    from advance_order [of "waiting st @ [?task]" e to st] obtain used new where u:
      "concat (waiting st @ [?task]) = used @ pendingChunks (advance e to (waiting st @ [?task]) st)"
      "submitted (events (advance e to (waiting st @ [?task]) st)) = submitted (events st) @ new"
      "subseq new (map trim used)" by blast
    from assms(1) None have "P @ ?task = finished @ concat (waiting st @ [?task])"
      by (simp add: pendingChunks_def)
    with u(1) have 1: "P @ ?task = (finished @ [] @ used)
        @ pendingChunks (advance e to (waiting st @ [?task]) st)"
      by simp
    from assms(2) u(3) have "subseq (submitted (events st) @ new) (map trim (finished @ [] @ used))"
      by (rule subseq_extend)
    with 1 u(2) Deliver None show ?thesis by auto
  next
    case (Some inflight)
    with assms Deliver show ?thesis
      by (auto simp: pendingChunks_def split: prod.splits)
  qed
next
  case (Settle ok)
  show ?thesis
  proof (cases "running st")
    case None
    with assms Settle show ?thesis by auto
  next
    case (Some inflight)
    obtain r rest where rr: "inflight = (r, rest)" by (cases inflight)
    let ?st' = "st\<lparr>events := events st @ [Completed r ok]\<rparr>"
    have ev: "submitted (events ?st') = submitted (events st)"
      by (simp add: submitted_append)
    from assms(1) Some rr have P: "P = finished @ rest @ concat (waiting st)"
      by (simp add: pendingChunks_def)
    show ?thesis
    proof (cases ok)
      case True
      let ?res = "advance e to (rest # waiting st) ?st'"
      from advance_order [of "rest # waiting st" e to ?st'] obtain used new where u:
        "concat (rest # waiting st) = used @ pendingChunks ?res"
        "submitted (events ?res) = submitted (events ?st') @ new"
        "subseq new (map trim used)" by blast
      from P u(1) have 1: "P = (finished @ [] @ used) @ pendingChunks ?res" by simp
      from assms(2) u(3) have "subseq (submitted (events st) @ new) (map trim (finished @ [] @ used))"
        by (rule subseq_extend)
      with 1 u(2) ev Settle Some rr True show ?thesis by (auto simp: Let_def)
    next
      case False
      let ?st2 = "?st'\<lparr>logged := logged ?st' @ [ApiError]\<rparr>"
      let ?res = "advance e to (waiting st) ?st2"
      from advance_order [of "waiting st" e to ?st2] obtain used new where u:
        "concat (waiting st) = used @ pendingChunks ?res"
        "submitted (events ?res) = submitted (events ?st2) @ new"
        "subseq new (map trim used)" by blast
      from P u(1) have 1: "P = (finished @ rest @ used) @ pendingChunks ?res" by simp
      from assms(2) u(3) have "subseq (submitted (events st) @ new) (map trim (finished @ rest @ used))"
        by (rule subseq_extend)
      with 1 u(2) ev Settle Some rr False show ?thesis by (auto simp: Let_def)
    qed
  qed
qed

lemma foldl_order:
  assumes "P = finished @ pendingChunks st"
    and "subseq (submitted (events st)) (map trim finished)"
  shows "\<exists>finished'.
      P @ produced chunker acts = finished' @ pendingChunks (foldl (step e to chunker) st acts)
      \<and> subseq (submitted (events (foldl (step e to chunker) st acts))) (map trim finished')"
  using assms
proof (induction acts arbitrary: st P finished)
  case Nil
  then show ?case by auto
next
  case (Cons a acts)
  let ?d = "case a of Deliver payload \<Rightarrow> chunksToSend chunker payload | Settle ok \<Rightarrow> []"
  from step_order [OF Cons.prems, where a = a and chunker = chunker and e = e and to = to] obtain f' where f':
    "P @ ?d = f' @ pendingChunks (step e to chunker st a)"
    "subseq (submitted (events (step e to chunker st a))) (map trim f')" by blast
  from Cons.IH [OF f'] obtain f'' where
    "(P @ ?d) @ produced chunker acts =
        f'' @ pendingChunks (foldl (step e to chunker) (step e to chunker st a) acts)"
    "subseq (submitted (events (foldl (step e to chunker) (step e to chunker st a) acts)))
        (map trim f'')" by blast
  moreover have "produced chunker (a # acts) = ?d @ produced chunker acts"
    by (cases a) simp_all
  ultimately show ?case by auto
qed

lemma run_order:
  "\<exists>finished. produced chunker acts = finished @ pendingChunks (run e to chunker acts)
     \<and> subseq (submitted (events (run e to chunker acts))) (map trim finished)"
proof -
  have p: "[] = [] @ pendingChunks dispatch_init"
    by (simp add: dispatch_init_def pendingChunks_def)
  have q: "subseq (submitted (events dispatch_init)) (map trim [])"
    by (simp add: dispatch_init_def)
  from foldl_order [OF p q, where chunker = chunker and acts = acts and e = e and to = to]
  show ?thesis by (simp add: run_def)
qed

lemma run_subseq:
  "subseq (submitted (events (run e to chunker acts))) (map trim (produced chunker acts))"
proof -
  from run_order [of chunker acts e to] obtain f where f:
    "produced chunker acts = f @ pendingChunks (run e to chunker acts)"
    "subseq (submitted (events (run e to chunker acts))) (map trim f)"
    by blast
  from f(2) have "subseq (submitted (events (run e to chunker acts)))
      (map trim f @ map trim (pendingChunks (run e to chunker acts)))"
    by (simp add: list_emb_append_mono [where ys = "[]", simplified])
  with f(1) show ?thesis by simp
qed

subsection \<open>The machine and the sequential reading\<close>

lemma deliverChunks_runLoop:
  "deliverChunks e to task [] =
     (case runLoop e to task of
        Ended \<Rightarrow> Finished [] [] []
      | Threw err \<Rightarrow> Finished [] [err] []
      | InFlight r rest \<Rightarrow> Pending [Submitted r] r rest)"
  by (induction task) (auto split: sum.splits)

lemma after_Nil: "after [] [] d = d"
  by (simp add: after_def)

lemma after_after: "after evs errs (after evs' errs' d) = after (evs @ evs') (errs @ errs') d"
  by (simp add: after_def)

text \<open>
  The chain that moves on through a list of deliveries does what the sequential reading
  does on that list without any answer, after what has happened so far.
\<close>

lemma advance_deliverAll:
  "advance e to ts st =
     \<lparr>waiting = waiting (deliverAll e to ts []), running = running (deliverAll e to ts []),
      events = events st @ events (deliverAll e to ts []),
      logged = logged st @ logged (deliverAll e to ts [])\<rparr>"
proof (induction ts arbitrary: st)
  case Nil
  show ?case by (cases st) (simp add: dispatch_init_def)
next
  case (Cons task ts)
  show ?case
  proof (cases "runLoop e to task")
    case Ended
    then show ?thesis by (simp add: Cons.IH deliverChunks_runLoop after_Nil)
  next
    case (Threw err)
    then show ?thesis by (simp add: Cons.IH deliverChunks_runLoop after_def)
  next
    case (InFlight r rest)
    then show ?thesis by (cases st) (simp add: deliverChunks_runLoop)
  qed
qed

lemma advance_after:
  "advance e to ts (after evs errs d) = after evs errs (advance e to ts d)"
  by (simp add: advance_deliverAll after_def)

lemma followed_case:
  "(case followed evs d of Finished a b c \<Rightarrow> F a b c | Pending a r c \<Rightarrow> P a r c) =
     (case d of Finished a b c \<Rightarrow> F (evs @ a) b c | Pending a r c \<Rightarrow> P (evs @ a) r c)"
  by (cases d) simp_all

text \<open>A delivery that stops at a request has used every answer; one that finishes returns the rest.\<close>

lemma deliverChunks_answers:
  "(case deliverChunks e to task ans of
      Finished evs errs ans' \<Rightarrow> ans = answers evs @ ans'
    | Pending evs r left \<Rightarrow> ans = answers evs)"
proof (induction e to task ans rule: deliverChunks.induct)
  case (1 e to ans)
  show ?case by simp
next
  case (2 e to chunk chunks ans)
  show ?case
  proof (cases "chunk = []")
    case True
    with 2 show ?thesis by simp
  next
    case False
    show ?thesis
    proof (cases "attempt e to chunk")
      case (Inl err)
      with False show ?thesis by simp
    next
      case (Inr q)
      show ?thesis
      proof (cases ans)
        case Nil
        with False Inr show ?thesis by simp
      next
        case (Cons b rest)
        show ?thesis
        proof (cases b)
          case no: False
          with False Inr Cons show ?thesis by simp
        next
          case yes: True
          from "2.IH"(2) [OF False Inr Cons yes] False Inr Cons yes show ?thesis
            by (simp add: followed_case split: delivery.splits)
        qed
      qed
    qed
  qed
qed

lemma deliverChunks_Finished:
  "deliverChunks e to task ans = Finished evs errs ans' \<Longrightarrow> ans = answers evs @ ans'"
  using deliverChunks_answers [where e = e and to = to and task = task and ans = ans] by simp

lemma deliverChunks_Pending:
  "deliverChunks e to task ans = Pending evs r left \<Longrightarrow> ans = answers evs"
  using deliverChunks_answers [where e = e and to = to and task = task and ans = ans] by simp

text \<open>More answers than a delivery uses change nothing but what it returns.\<close>

lemma deliverChunks_more:
  "deliverChunks e to task ans = Finished evs errs ans' \<Longrightarrow>
   deliverChunks e to task (ans @ extra) = Finished evs errs (ans' @ extra)"
proof (induction e to task ans arbitrary: evs errs ans' rule: deliverChunks.induct)
  case (1 e to ans)
  then show ?case by simp
next
  case (2 e to chunk chunks ans)
  show ?case
  proof (cases "chunk = []")
    case True
    with 2 show ?thesis by simp
  next
    case False
    show ?thesis
    proof (cases "attempt e to chunk")
      case (Inl err)
      with 2 False show ?thesis by auto
    next
      case (Inr q)
      show ?thesis
      proof (cases ans)
        case Nil
        with 2 False Inr show ?thesis by simp
      next
        case (Cons ok rest)
        show ?thesis
        proof (cases ok)
          case no: False
          with 2 False Inr Cons show ?thesis by auto
        next
          case yes: True
          show ?thesis
          proof (cases "deliverChunks e to chunks rest")
            case (Finished evs2 errs2 ans2)
            with "2.IH"(2) [OF False Inr Cons yes] have
              "deliverChunks e to chunks (rest @ extra) = Finished evs2 errs2 (ans2 @ extra)"
              by blast
            with "2.prems" False Inr Cons yes Finished show ?thesis by auto
          next
            case (Pending evs2 r2 c2)
            with "2.prems" False Inr Cons yes show ?thesis by auto
          qed
        qed
      qed
    qed
  qed
qed

text \<open>The answer that a delivery waits for.\<close>

lemma deliverChunks_next:
  "deliverChunks e to task ans = Pending evs r left \<Longrightarrow>
   deliverChunks e to task (ans @ [ok]) =
     (if ok then followed (evs @ [Completed r True]) (deliverChunks e to left [])
      else Finished (evs @ [Completed r False]) [ApiError] [])"
proof (induction e to task ans arbitrary: evs rule: deliverChunks.induct)
  case (1 e to ans)
  then show ?case by simp
next
  case (2 e to chunk chunks ans)
  show ?case
  proof (cases "chunk = []")
    case True
    with 2 show ?thesis by simp
  next
    case False
    show ?thesis
    proof (cases "attempt e to chunk")
      case (Inl err)
      with 2 False show ?thesis by auto
    next
      case (Inr q)
      show ?thesis
      proof (cases ans)
        case Nil
        with "2.prems" False Inr show ?thesis by auto
      next
        case (Cons b rest)
        show ?thesis
        proof (cases b)
          case no: False
          with 2 False Inr Cons show ?thesis by auto
        next
          case yes: True
          show ?thesis
          proof (cases "deliverChunks e to chunks rest")
            case (Finished evs2 errs2 ans2)
            with "2.prems" False Inr Cons yes show ?thesis by auto
          next
            case (Pending evs2 r2 c2)
            with "2.prems" False Inr Cons yes have p: "r2 = r" "c2 = left"
                "evs = [Submitted q, Completed q True] @ evs2"
              by auto
            from "2.IH"(2) [OF False Inr Cons yes] Pending p(1,2) have
              "deliverChunks e to chunks (rest @ [ok]) =
                 (if ok then followed (evs2 @ [Completed r True]) (deliverChunks e to left [])
                  else Finished (evs2 @ [Completed r False]) [ApiError] [])"
              by blast
            with False Inr Cons yes p(3) show ?thesis
              by (cases "deliverChunks e to left []") auto
          qed
        qed
      qed
    qed
  qed
qed

lemma advance_answers: "answers (events (advance e to ts st)) = answers (events st)"
proof (induction ts arbitrary: st)
  case Nil
  show ?case by simp
next
  case (Cons task ts)
  show ?case by (cases "runLoop e to task") (simp_all add: Cons.IH answers_append)
qed

lemma deliverAll_idle:
  "running (deliverAll e to D A) = None \<Longrightarrow> waiting (deliverAll e to D A) = []"
proof (induction D arbitrary: A)
  case Nil
  show ?case by (simp add: dispatch_init_def)
next
  case (Cons p ps)
  then show ?case
    by (cases "deliverChunks e to p A") (simp_all add: after_def)
qed

lemma step_after:
  "step e to chunker (after evs errs d) a = after evs errs (step e to chunker d a)"
proof (cases a)
  case (Deliver payload)
  show ?thesis
  proof (cases "running d")
    case None
    then have "step e to chunker (after evs errs d) a =
        advance e to (waiting d @ [chunksToSend chunker payload]) (after evs errs d)"
      using Deliver by (simp add: after_def)
    with None Deliver show ?thesis by (simp add: advance_after)
  next
    case (Some inflight)
    with Deliver show ?thesis by (simp add: after_def)
  qed
next
  case (Settle ok)
  show ?thesis
  proof (cases "running d")
    case None
    with Settle show ?thesis by (simp add: after_def)
  next
    case (Some inflight)
    obtain r rest where rr: "inflight = (r, rest)" by (cases inflight)
    have 1: "(after evs errs d)\<lparr>events := events (after evs errs d) @ [Completed r ok]\<rparr> =
        after evs errs (d\<lparr>events := events d @ [Completed r ok]\<rparr>)"
      by (simp add: after_def)
    have 2: "(after evs errs d)\<lparr>events := events (after evs errs d) @ [Completed r ok],
                                 logged := logged (after evs errs d) @ [ApiError]\<rparr> =
        after evs errs (d\<lparr>events := events d @ [Completed r ok], logged := logged d @ [ApiError]\<rparr>)"
      by (simp add: after_def)
    have w: "running (after evs errs d) = Some (r, rest)" "waiting (after evs errs d) = waiting d"
      using Some rr by (simp_all add: after_def)
    show ?thesis
    proof (cases ok)
      case True
      have "step e to chunker (after evs errs d) (Settle ok) =
          advance e to (rest # waiting d)
            ((after evs errs d)\<lparr>events := events (after evs errs d) @ [Completed r ok]\<rparr>)"
        using w True by (simp add: Let_def del: advance.simps)
      also have "\<dots> = after evs errs
          (advance e to (rest # waiting d) (d\<lparr>events := events d @ [Completed r ok]\<rparr>))"
        by (simp only: 1 advance_after)
      also have "\<dots> = after evs errs (step e to chunker d (Settle ok))"
        using Some rr True by (simp add: Let_def del: advance.simps)
      finally show ?thesis using Settle by simp
    next
      case False
      have "step e to chunker (after evs errs d) (Settle ok) =
          advance e to (waiting d)
            ((after evs errs d)\<lparr>events := events (after evs errs d) @ [Completed r ok],
                                  logged := logged (after evs errs d) @ [ApiError]\<rparr>)"
        using w False by (simp add: Let_def del: advance.simps)
      also have "\<dots> = after evs errs
          (advance e to (waiting d)
             (d\<lparr>events := events d @ [Completed r ok], logged := logged d @ [ApiError]\<rparr>))"
        by (simp only: 2 advance_after)
      also have "\<dots> = after evs errs (step e to chunker d (Settle ok))"
        using Some rr False by (simp add: Let_def del: advance.simps)
      finally show ?thesis using Settle by simp
    qed
  qed
qed

text \<open>A payload delivered behind the others, in the sequential reading.\<close>

lemma deliverAll_Deliver:
  "answers (events (deliverAll e to D A)) = A \<Longrightarrow>
   deliverAll e to (D @ [chunksToSend chunker payload]) A =
     step e to chunker (deliverAll e to D A) (Deliver payload)"
proof (induction D arbitrary: A)
  case Nil
  then have A: "A = []" by (simp add: dispatch_init_def)
  let ?t = "chunksToSend chunker payload"
  have "step e to chunker dispatch_init (Deliver payload) = advance e to [?t] dispatch_init"
    by (simp add: dispatch_init_def del: advance.simps)
  also have "\<dots> = deliverAll e to [?t] []"
    by (cases "runLoop e to ?t")
       (simp_all add: deliverChunks_runLoop dispatch_init_def after_def)
  finally show ?case using A by simp
next
  case (Cons p ps)
  show ?case
  proof (cases "deliverChunks e to p A")
    case (Finished evs errs A')
    then have "A = answers evs @ A'" by (rule deliverChunks_Finished)
    moreover from Cons.prems Finished have "answers (evs @ events (deliverAll e to ps A')) = A"
      by (simp add: after_def)
    ultimately have "answers (events (deliverAll e to ps A')) = A'"
      by (simp add: answers_append)
    then have "deliverAll e to (ps @ [chunksToSend chunker payload]) A' =
        step e to chunker (deliverAll e to ps A') (Deliver payload)"
      by (rule Cons.IH)
    with Finished show ?thesis by (simp add: step_after del: step.simps)
  next
    case (Pending evs r left)
    then show ?thesis by simp
  qed
qed

text \<open>An answer of the transport to the request in flight, in the sequential reading.\<close>

lemma deliverAll_Settle:
  "running (deliverAll e to D A) \<noteq> None \<Longrightarrow>
   deliverAll e to D (A @ [ok]) = step e to chunker (deliverAll e to D A) (Settle ok)"
proof (induction D arbitrary: A)
  case Nil
  then show ?case by (simp add: dispatch_init_def)
next
  case (Cons p ps)
  show ?case
  proof (cases "deliverChunks e to p A")
    case (Finished evs errs A')
    with Cons.prems have "running (deliverAll e to ps A') \<noteq> None"
      by (simp add: after_def)
    then have "deliverAll e to ps (A' @ [ok]) =
        step e to chunker (deliverAll e to ps A') (Settle ok)"
      by (rule Cons.IH)
    moreover from Finished have "deliverChunks e to p (A @ [ok]) = Finished evs errs (A' @ [ok])"
      by (rule deliverChunks_more)
    ultimately show ?thesis using Finished by (simp add: step_after del: step.simps)
  next
    case (Pending evs r left)
    let ?st = "\<lparr>waiting = ps, running = Some (r, left), events = evs, logged = []\<rparr>"
    have st: "deliverAll e to (p # ps) A = ?st" using Pending by simp
    from Pending have n: "deliverChunks e to p (A @ [ok]) =
        (if ok then followed (evs @ [Completed r True]) (deliverChunks e to left [])
         else Finished (evs @ [Completed r False]) [ApiError] [])"
      by (rule deliverChunks_next)
    show ?thesis
    proof (cases ok)
      case False
      have "step e to chunker ?st (Settle ok) =
          advance e to ps \<lparr>waiting = ps, running = Some (r, left),
                            events = evs @ [Completed r False], logged = [ApiError]\<rparr>"
        using False by (simp add: Let_def del: advance.simps)
      also have "\<dots> = after (evs @ [Completed r False]) [ApiError] (deliverAll e to ps [])"
        by (simp add: advance_deliverAll after_def)
      also have "\<dots> = deliverAll e to (p # ps) (A @ [ok])"
        using n False by simp
      finally show ?thesis using st by simp
    next
      case True
      have s: "step e to chunker ?st (Settle ok) =
          advance e to (left # ps) \<lparr>waiting = ps, running = Some (r, left),
                            events = evs @ [Completed r True], logged = []\<rparr>"
        using True by (simp add: Let_def del: advance.simps)
      show ?thesis
      proof (cases "deliverChunks e to left []")
        case (Finished evs2 errs2 ans2)
        then have "[] = answers evs2 @ ans2" by (rule deliverChunks_Finished)
        then have a: "ans2 = []" by simp
        have "step e to chunker ?st (Settle ok) =
            after (evs @ [Completed r True] @ evs2) errs2 (deliverAll e to ps [])"
          unfolding s using Finished a by (simp add: advance_deliverAll after_def)
        also have "\<dots> = deliverAll e to (p # ps) (A @ [ok])"
          using n True Finished a by simp
        finally show ?thesis using st by simp
      next
        case (Pending evs2 r2 left2)
        have "step e to chunker ?st (Settle ok) =
            \<lparr>waiting = ps, running = Some (r2, left2),
             events = evs @ [Completed r True] @ evs2, logged = []\<rparr>"
          unfolding s using Pending by (simp add: advance_deliverAll)
        also have "\<dots> = deliverAll e to (p # ps) (A @ [ok])"
          using n True Pending by simp
        finally show ?thesis using st by simp
      qed
    qed
  qed
qed

lemma delivered_append:
  "delivered chunker (acts @ acts') = delivered chunker acts @ delivered chunker acts'"
  by (induction chunker acts rule: delivered.induct) auto

lemma produced_append:
  "produced chunker (acts @ acts') = produced chunker acts @ produced chunker acts'"
  by (induction chunker acts rule: produced.induct) auto

lemma concat_delivered: "concat (delivered chunker acts) = produced chunker acts"
  by (induction chunker acts rule: delivered.induct) auto

lemma run_snoc: "run e to chunker (acts @ [a]) = step e to chunker (run e to chunker acts) a"
  by (simp add: run_def)

text \<open>
  The machine is the sequential reading: after any events, its state is that of the
  payloads delivered so far, read one after the other, on the answers the transport has
  given so far.
\<close>

lemma run_sequential:
  "run e to chunker acts =
     deliverAll e to (delivered chunker acts) (answers (events (run e to chunker acts)))"
proof (induction acts rule: rev_induct)
  case Nil
  show ?case by (simp add: run_def)
next
  case (snoc a acts)
  let ?st = "run e to chunker acts"
  let ?D = "delivered chunker acts"
  let ?A = "answers (events ?st)"
  have st: "?st = deliverAll e to ?D ?A" by (rule snoc.IH)
  have used: "answers (events (deliverAll e to ?D ?A)) = ?A"
    using st by simp
  show ?case
  proof (cases a)
    case (Deliver payload)
    have "answers (events (step e to chunker ?st a)) = ?A"
      using Deliver by (cases "running ?st") (simp_all add: advance_answers del: advance.simps)
    moreover have "step e to chunker ?st a =
        deliverAll e to (?D @ [chunksToSend chunker payload]) ?A"
      using deliverAll_Deliver [OF used, of chunker payload] st Deliver by simp
    ultimately show ?thesis
      using Deliver by (simp add: run_snoc delivered_append del: step.simps)
  next
    case (Settle ok)
    show ?thesis
    proof (cases "running ?st")
      case None
      with Settle st show ?thesis by (simp add: run_snoc delivered_append)
    next
      case (Some inflight)
      obtain r rest where rr: "inflight = (r, rest)" by (cases inflight)
      have "answers (events (step e to chunker ?st a)) = ?A @ [ok]"
        using Settle Some rr
        by (simp add: Let_def advance_answers answers_append del: advance.simps)
      moreover have "running (deliverAll e to ?D ?A) \<noteq> None"
        using st Some by simp
      then have "deliverAll e to ?D (?A @ [ok]) = step e to chunker ?st (Settle ok)"
        using deliverAll_Settle [of e to ?D ?A ok chunker] st by simp
      ultimately show ?thesis
        using Settle by (simp add: run_snoc delivered_append del: step.simps)
    qed
  qed
qed

subsection \<open>What the sequential reading submits and logs\<close>

lemma deliverChunks_complete:
  assumes "\<And>c. c \<in> set task \<Longrightarrow> c \<noteq> [] \<Longrightarrow> attempt e to c = Inr (Message tgt (trim c))"
    and "list_all (\<lambda>ok. ok) ans"
  shows "case deliverChunks e to task ans of
           Finished evs errs ans' \<Rightarrow>
             submitted evs = map trim (filter (\<lambda>c. c \<noteq> []) task) \<and> errs = []
             \<and> list_all (\<lambda>ok. ok) ans'
         | Pending evs r left \<Rightarrow>
             map trim (filter (\<lambda>c. c \<noteq> []) task) =
               submitted evs @ map trim (filter (\<lambda>c. c \<noteq> []) left)"
  using assms
proof (induction task arbitrary: ans)
  case Nil
  then show ?case by simp
next
  case (Cons chunk task)
  have ih: "list_all (\<lambda>ok. ok) a \<Longrightarrow>
         (case deliverChunks e to task a of
           Finished evs errs ans' \<Rightarrow>
             submitted evs = map trim (filter (\<lambda>c. c \<noteq> []) task) \<and> errs = []
             \<and> list_all (\<lambda>ok. ok) ans'
         | Pending evs r left \<Rightarrow>
             map trim (filter (\<lambda>c. c \<noteq> []) task) =
               submitted evs @ map trim (filter (\<lambda>c. c \<noteq> []) left))" for a
    using Cons.IH [of a] Cons.prems(1) by simp
  show ?case
  proof (cases "chunk = []")
    case True
    with ih [OF Cons.prems(2)] show ?thesis by (simp split: delivery.splits)
  next
    case False
    then have a: "attempt e to chunk = Inr (Message tgt (trim chunk))"
      using Cons.prems(1) by simp
    show ?thesis
    proof (cases ans)
      case Nil
      with False a show ?thesis by simp
    next
      case (Cons ok rest)
      with Cons.prems(2) have ok: "ok" and rest: "list_all (\<lambda>ok. ok) rest" by simp_all
      from ih [OF rest] False a Cons ok show ?thesis
        by (simp add: followed_case submitted_append split: delivery.splits)
    qed
  qed
qed

lemma pendingChunks_after: "pendingChunks (after evs errs d) = pendingChunks d"
  by (simp add: pendingChunks_def after_def)

lemma deliverAll_complete:
  assumes "\<And>c. c \<in> set (concat D) \<Longrightarrow> c \<noteq> [] \<Longrightarrow> attempt e to c = Inr (Message tgt (trim c))"
    and "list_all (\<lambda>ok. ok) A"
  shows "map trim (filter (\<lambda>c. c \<noteq> []) (concat D)) =
           submitted (events (deliverAll e to D A))
           @ map trim (filter (\<lambda>c. c \<noteq> []) (pendingChunks (deliverAll e to D A)))
         \<and> logged (deliverAll e to D A) = []"
  using assms
proof (induction D arbitrary: A)
  case Nil
  show ?case by (simp add: dispatch_init_def pendingChunks_def)
next
  case (Cons p ps)
  have p: "\<And>c. c \<in> set p \<Longrightarrow> c \<noteq> [] \<Longrightarrow> attempt e to c = Inr (Message tgt (trim c))"
    using Cons.prems(1) by simp
  have ps: "\<And>c. c \<in> set (concat ps) \<Longrightarrow> c \<noteq> [] \<Longrightarrow> attempt e to c = Inr (Message tgt (trim c))"
    using Cons.prems(1) by simp
  note dc = deliverChunks_complete [of p e to tgt A, OF p Cons.prems(2)]
  show ?case
  proof (cases "deliverChunks e to p A")
    case (Finished evs errs A')
    with dc have f: "submitted evs = map trim (filter (\<lambda>c. c \<noteq> []) p)" "errs = []"
        "list_all (\<lambda>ok. ok) A'"
      by simp_all
    from Cons.IH [OF ps f(3)] Finished f(1,2) show ?thesis
      by (simp add: pendingChunks_after) (simp add: after_def submitted_append)
  next
    case (Pending evs r left)
    with dc have "map trim (filter (\<lambda>c. c \<noteq> []) p) =
               submitted evs @ map trim (filter (\<lambda>c. c \<noteq> []) left)"
      by simp
    with Pending show ?thesis by (simp add: pendingChunks_def)
  qed
qed

text \<open>
  When the account is ready, the target is good, no chunk is blank and the transport has
  failed no request, every chunk produced has been submitted, in the order of production,
  or is still held by the chain, and nothing has been logged.
\<close>

lemma run_complete:
  assumes "clientReady e" and "parseZulipTarget to = Inr tgt"
    and "list_all (\<lambda>c. c = [] \<or> trim c \<noteq> []) (produced chunker acts)"
    and "list_all (\<lambda>ok. ok) (answers (events (run e to chunker acts)))"
  shows "map trim (filter (\<lambda>c. c \<noteq> []) (produced chunker acts)) =
           submitted (events (run e to chunker acts))
           @ map trim (filter (\<lambda>c. c \<noteq> []) (pendingChunks (run e to chunker acts)))
         \<and> logged (run e to chunker acts) = []"
proof -
  have "attempt e to c = Inr (Message tgt (trim c))"
    if "c \<in> set (concat (delivered chunker acts))" and "c \<noteq> []" for c
  proof -
    from that assms(3) have "trim c \<noteq> []"
      by (auto simp: concat_delivered list_all_iff)
    with assms(1,2) show ?thesis by (rule attempt_ready)
  qed
  from deliverAll_complete [of "delivered chunker acts" e to tgt, OF this assms(4)]
  show ?thesis
    by (simp add: run_sequential [symmetric] concat_delivered)
qed

lemma run_idle:
  "running (run e to chunker acts) = None \<Longrightarrow> pendingChunks (run e to chunker acts) = []"
proof -
  assume n: "running (run e to chunker acts) = None"
  then have "running (deliverAll e to (delivered chunker acts)
               (answers (events (run e to chunker acts)))) = None"
    by (simp add: run_sequential [symmetric])
  then have "waiting (deliverAll e to (delivered chunker acts)
               (answers (events (run e to chunker acts)))) = []"
    by (rule deliverAll_idle)
  then have "waiting (run e to chunker acts) = []"
    by (simp add: run_sequential [symmetric])
  with n show ?thesis by (simp add: pendingChunks_def)
qed





lemma settle_success:
  "running st = Some (r, rest) \<Longrightarrow>
   step e to chunker st (Settle True) =
     \<lparr>waiting = waiting (deliverAll e to (rest # waiting st) []),
      running = running (deliverAll e to (rest # waiting st) []),
      events = events st @ Completed r True # events (deliverAll e to (rest # waiting st) []),
      logged = logged st @ logged (deliverAll e to (rest # waiting st) [])\<rparr>"
  by (simp add: Let_def advance_deliverAll del: advance.simps deliverAll.simps)

subsection \<open>The messages of a batch\<close>

lemma dispatchReply_outcome: "fst (snd (dispatchReply e re out)) = out"
  by (simp add: dispatchReply_def split: outcome.splits option.splits)


lemma dispatchReply_Dispatch:
  "dispatchReply e \<lparr>reply_chunker = chunker, replies = Some acts\<rparr> (Dispatch ctx) =
     (Fulfilled, Dispatch ctx, run (sending e) (To ctx) chunker acts)"
  by (simp add: dispatchReply_def)









lemma handleMessages_length: "length (fst (handleMessages cfg ms w)) = length ms"
  by (induction ms arbitrary: w) (auto simp: case_prod_beta Let_def)



lemma handleEvents_length: "length (fst (handleEvents cfg evs w n)) = length evs"
proof (induction evs arbitrary: w n)
  case Nil
  show ?case by simp
next
  case (Cons ev evs)
  obtain e re msg where ev: "ev = (e, re, msg)" by (cases ev)
  show ?case by (simp add: ev case_prod_beta Let_def Cons.IH)
qed

lemmas dispatch_eval = run_def dispatch_init_def chunksToSend_def chunk1_def send_env0_def
  attempt_def

text \<open>
  C4. Within the dispatch of one inbound message, whatever the dispatcher delivers and
  whenever, and whatever the transport answers: a request is submitted only when none is
  in flight, so the request for a chunk is not submitted before the request before it has
  completed, by success or by failure; the contents submitted are, in this order, among
  the chunks produced (each trimmed by \<open>sendZulipMessage\<close>), in the order of their
  production; and when the account is ready, the target is good, no chunk is blank and
  the transport has failed no request, the chunks produced are exactly, in this order,
  those submitted and then those the chain still holds, of which there are none once
  nothing is in flight. The chain is strictly ordered: the state of the machine is that
  of the payloads delivered so far, read one after the other on the answers given so
  far. And the chain belongs to the dispatch of one message: it starts empty for the
  reply of each message.
\<close>

theorem delivery_in_order:
  "serial None (events (run e to chunker acts)) =
     Some (map_option fst (running (run e to chunker acts)))
   \<and> subseq (submitted (events (run e to chunker acts))) (map trim (produced chunker acts))
   \<and> (if clientReady e \<and> parseZulipTarget to = Inr tgt
          \<and> list_all (\<lambda>c. c = [] \<or> trim c \<noteq> []) (produced chunker acts)
          \<and> list_all (\<lambda>ok. ok) (answers (events (run e to chunker acts)))
       then map trim (filter (\<lambda>c. c \<noteq> []) (produced chunker acts)) =
              submitted (events (run e to chunker acts))
              @ map trim (filter (\<lambda>c. c \<noteq> []) (pendingChunks (run e to chunker acts)))
       else True)
   \<and> (if running (run e to chunker acts) = None
       then pendingChunks (run e to chunker acts) = [] else True)
   \<and> run e to chunker acts =
       deliverAll e to (delivered chunker acts) (answers (events (run e to chunker acts)))
   \<and> dispatchReply en \<lparr>reply_chunker = chunker, replies = Some acts\<rparr> (Dispatch ctx) =
       (Fulfilled, Dispatch ctx, run (sending en) (To ctx) chunker acts)"
proof -
  let ?st = "run e to chunker acts"
  have 1: "serial None (events ?st) = Some (map_option fst (running ?st))"
    by (rule run_serial)
  have 2: "subseq (submitted (events ?st)) (map trim (produced chunker acts))"
    by (rule run_subseq)
  have 3: "if clientReady e \<and> parseZulipTarget to = Inr tgt
          \<and> list_all (\<lambda>c. c = [] \<or> trim c \<noteq> []) (produced chunker acts)
          \<and> list_all (\<lambda>ok. ok) (answers (events ?st))
       then map trim (filter (\<lambda>c. c \<noteq> []) (produced chunker acts)) =
              submitted (events ?st) @ map trim (filter (\<lambda>c. c \<noteq> []) (pendingChunks ?st))
       else True"
    using run_complete [of e to tgt chunker acts] by (simp only: split: if_split) blast
  have 4: "if running ?st = None then pendingChunks ?st = [] else True"
    using run_idle [of e to chunker acts] by (simp only: split: if_split) blast
  have 5: "?st = deliverAll e to (delivered chunker acts) (answers (events ?st))"
    by (rule run_sequential)
  have 6: "dispatchReply en \<lparr>reply_chunker = chunker, replies = Some acts\<rparr> (Dispatch ctx) =
       (Fulfilled, Dispatch ctx, run (sending en) (To ctx) chunker acts)"
    by (rule dispatchReply_Dispatch)
  show ?thesis
    by (intro conjI) (rule 1, rule 2, rule 3, rule 4, rule 5, rule 6)
qed

text \<open>
  Two payloads delivered before the transport has answered anything, and three successes:
  the chunks reach the transport in the order of their production.
\<close>

theorem delivery_in_order_witness:
  "clientReady send_env0
   \<and> parseZulipTarget ''dm:42'' = Inr \<lparr>ttype = TDirect, tto = ''42'', ttopic = None\<rparr>
   \<and> produced chunk1 [Deliver ''ab'', Deliver ''c'', Settle True, Settle True, Settle True] =
       [''a'', ''b'', ''c'']
   \<and> answers (events (run send_env0 ''dm:42'' chunk1
        [Deliver ''ab'', Deliver ''c'', Settle True, Settle True, Settle True])) =
       [True, True, True]
   \<and> running (run send_env0 ''dm:42'' chunk1
        [Deliver ''ab'', Deliver ''c'', Settle True, Settle True, Settle True]) = None
   \<and> submitted (events (run send_env0 ''dm:42'' chunk1
        [Deliver ''ab'', Deliver ''c'', Settle True, Settle True, Settle True])) =
       [''a'', ''b'', ''c'']"
proof -
  let ?acts = "[Deliver ''ab'', Deliver ''c'', Settle True, Settle True, Settle True]"
  let ?tgt = "\<lparr>ttype = TDirect, tto = ''42'', ttopic = None\<rparr>"
  let ?st = "run send_env0 ''dm:42'' chunk1 ?acts"
  have a: "clientReady send_env0"
    by (simp add: send_env0_def clientReady_def missing_def createZulipClient_def
        normalizeServerUrl_def str_eval)
  have b: "parseZulipTarget ''dm:42'' = Inr ?tgt"
    by (simp add: send_eval str_eval)
  have c: "produced chunk1 ?acts = [''a'', ''b'', ''c'']"
    by (simp add: chunksToSend_def chunk1_def)
  have d: "answers (events ?st) = [True, True, True]"
    by (simp add: dispatch_eval send_eval str_eval)
  have f: "running ?st = None"
    by (simp add: dispatch_eval send_eval str_eval)
  have g: "list_all (\<lambda>c. c = [] \<or> trim c \<noteq> []) (produced chunk1 ?acts)"
    unfolding c by (simp add: str_eval)
  have h: "list_all (\<lambda>ok. ok) (answers (events ?st))"
    unfolding d by simp
  note t = delivery_in_order [where e = send_env0 and to = "''dm:42''" and chunker = chunk1
      and acts = ?acts and tgt = ?tgt and en = env0
      and ctx = "buildContext cfg_auto stream_carol world0 []"]
  from t have "if clientReady send_env0 \<and> parseZulipTarget ''dm:42'' = Inr ?tgt
          \<and> list_all (\<lambda>c. c = [] \<or> trim c \<noteq> []) (produced chunk1 ?acts)
          \<and> list_all (\<lambda>ok. ok) (answers (events ?st))
       then map trim (filter (\<lambda>c. c \<noteq> []) (produced chunk1 ?acts)) =
              submitted (events ?st) @ map trim (filter (\<lambda>c. c \<noteq> []) (pendingChunks ?st))
       else True"
    by blast
  with a b g h have 1: "map trim (filter (\<lambda>c. c \<noteq> []) (produced chunk1 ?acts)) =
              submitted (events ?st) @ map trim (filter (\<lambda>c. c \<noteq> []) (pendingChunks ?st))"
    by (simp only: simp_thms if_True)
  from t have "if running ?st = None then pendingChunks ?st = [] else True"
    by blast
  with f have 2: "pendingChunks ?st = []" by (simp only: simp_thms if_True)
  have "map trim (filter (\<lambda>c. c \<noteq> []) (produced chunk1 ?acts)) = [''a'', ''b'', ''c'']"
    unfolding c by (simp add: str_eval)
  with 1 2 have "submitted (events ?st) = [''a'', ''b'', ''c'']" by simp
  with a b c d f show ?thesis by blast
qed




end
